theory Spec2Isabelle
  imports Main
begin

section \<open>Text\<close>

text \<open>
  A file holds bytes, and a \<^typ>\<open>char\<close> is a byte. A text (a line, a record, a chunk of
  a decoded stream) is held as the bytes of its UTF-8 encoding, so writing a text to a
  file writes these bytes, and reading a file as text goes through the decoder, which
  the operations below take as a parameter: it returns the content when that is
  well-formed UTF-8, and U+FFFD (the bytes EF BF BD) in the place of what is not.
\<close>

definition LF :: char where
  "LF = CHR 0x0A"

definition CR :: char where
  "CR = CHR 0x0D"

text \<open>
  The white space and line terminators that \<^verbatim>\<open>String.prototype.trim\<close> strips: the
  characters of one byte, NBSP (C2 A0), and those of three bytes (U+1680, U+2000 to
  U+200A, U+2028, U+2029, U+202F, U+205F, U+3000, U+FEFF).
\<close>

definition is_ws :: "char \<Rightarrow> bool" where
  "is_ws c = (c = CHR 0x09 \<or> c = CHR 0x0A \<or> c = CHR 0x0B \<or> c = CHR 0x0C \<or> c = CHR 0x0D
              \<or> c = CHR 0x20)"

definition is_ws3 :: "char \<Rightarrow> char \<Rightarrow> char \<Rightarrow> bool" where
  "is_ws3 a b c =
     ((a = CHR 0xE1 \<and> b = CHR 0x9A \<and> c = CHR 0x80)
      \<or> (a = CHR 0xE2 \<and> b = CHR 0x80
           \<and> ((128 \<le> (of_char c :: nat) \<and> (of_char c :: nat) \<le> 138)
                \<or> c = CHR 0xA8 \<or> c = CHR 0xA9 \<or> c = CHR 0xAF))
      \<or> (a = CHR 0xE2 \<and> b = CHR 0x81 \<and> c = CHR 0x9F)
      \<or> (a = CHR 0xE3 \<and> b = CHR 0x80 \<and> c = CHR 0x80)
      \<or> (a = CHR 0xEF \<and> b = CHR 0xBB \<and> c = CHR 0xBF))"

text \<open>White space stripped from the front of a text, and from the front of a reversed text.\<close>

fun drop_ws :: "string \<Rightarrow> string" where
  "drop_ws [] = []"
| "drop_ws (a # s) =
     (if is_ws a then drop_ws s
      else (case s of
              [] \<Rightarrow> [a]
            | b # t \<Rightarrow>
                if a = CHR 0xC2 \<and> b = CHR 0xA0 then drop_ws t
                else (case t of
                        [] \<Rightarrow> a # s
                      | c # u \<Rightarrow> if is_ws3 a b c then drop_ws u else a # s)))"

fun drop_ws_rev :: "string \<Rightarrow> string" where
  "drop_ws_rev [] = []"
| "drop_ws_rev (c # s) =
     (if is_ws c then drop_ws_rev s
      else (case s of
              [] \<Rightarrow> [c]
            | b # t \<Rightarrow>
                if b = CHR 0xC2 \<and> c = CHR 0xA0 then drop_ws_rev t
                else (case t of
                        [] \<Rightarrow> c # s
                      | a # u \<Rightarrow> if is_ws3 a b c then drop_ws_rev u else c # s)))"

definition trim :: "string \<Rightarrow> string" where
  "trim s = rev (drop_ws_rev (rev (drop_ws s)))"

text \<open>\<^verbatim>\<open>!line.trim()\<close>: the trimmed line is the empty string.\<close>

definition is_blank :: "string \<Rightarrow> bool" where
  "is_blank s = (trim s = [])"

text \<open>\<^verbatim>\<open>buffer.split("\n")\<close>: one piece more than there are line feeds.\<close>

fun split_nl :: "string \<Rightarrow> string list" where
  "split_nl [] = [[]]"
| "split_nl (c # cs) =
     (if c = LF then [] # split_nl cs
      else (case split_nl cs of
              [] \<Rightarrow> [[c]]
            | l # ls \<Rightarrow> (c # l) # ls))"

text \<open>
  The lines that the \<^verbatim>\<open>readline\<close> interface yields for a decoded stream (with
  \<^verbatim>\<open>crlfDelay: Infinity\<close>): a line ends at a line feed, at a carriage return followed by
  a line feed, at a lone carriage return, or at U+2028 or U+2029 (E2 80 A8, E2 80 A9);
  what follows the last terminator is a line only when it is not empty. \<open>acc\<close> is the
  line being read, reversed.
\<close>

fun at_separator :: "string \<Rightarrow> bool" where
  "at_separator (a # b # c # s) =
     (a = CHR 0xE2 \<and> b = CHR 0x80 \<and> (c = CHR 0xA8 \<or> c = CHR 0xA9))"
| "at_separator s = False"

fun readline_acc :: "string \<Rightarrow> string \<Rightarrow> string list" where
  "readline_acc acc [] = (if acc = [] then [] else [rev acc])"
| "readline_acc acc (c # cs) =
     (if c = LF then rev acc # readline_acc [] cs
      else if c = CR then
        (case cs of
           [] \<Rightarrow> [rev acc]
         | d # ds \<Rightarrow> if d = LF then rev acc # readline_acc [] ds
                     else rev acc # readline_acc [] (d # ds))
      else if at_separator (c # cs) then rev acc # readline_acc [] (drop 2 cs)
      else readline_acc (c # acc) cs)"

definition readline_lines :: "string \<Rightarrow> string list" where
  "readline_lines s = readline_acc [] s"

section \<open>JSON values\<close>

text \<open>
  What \<^verbatim>\<open>JSON.parse\<close> returns. \<open>'n\<close> is the type of number values, compared as
  \<^verbatim>\<open>===\<close> compares them. An object is the list of its own properties, each key once.
\<close>

datatype 'n json =
    JNull
  | JBool bool
  | JNum 'n
  | JStr string
  | JArr "'n json list"
  | JObj "(string \<times> 'n json) list"

datatype error = SyntaxError | TypeError | ENOENT | EACCES

text \<open>
  \<^verbatim>\<open>v.id\<close> for a JSON value \<open>v\<close>: a TypeError on \<^verbatim>\<open>null\<close>, the property of an object,
  \<^verbatim>\<open>undefined\<close> (\<open>None\<close>) where there is no such property.
\<close>

fun get_id :: "'n json \<Rightarrow> error + 'n json option" where
  "get_id JNull = Inl TypeError"
| "get_id (JObj kvs) = Inr (map_of kvs ''id'')"
| "get_id _ = Inr None"

text \<open>
  \<^verbatim>\<open>a === b\<close> where \<open>a\<close> comes from a freshly parsed line: \<^verbatim>\<open>undefined\<close> equals
  \<^verbatim>\<open>undefined\<close>, primitives are compared by value, and an array or an object is equal only
  to itself, which a freshly parsed value never is.
\<close>

fun is_primitive :: "'n json \<Rightarrow> bool" where
  "is_primitive (JArr _) = False"
| "is_primitive (JObj _) = False"
| "is_primitive _ = True"

definition strict_eq :: "'n json option \<Rightarrow> 'n json option \<Rightarrow> bool" where
  "strict_eq a b = (case a of None \<Rightarrow> b = None | Some x \<Rightarrow> is_primitive x \<and> b = Some x)"

section \<open>The file system\<close>

text \<open>
  A path names a file (an inode); an open handle keeps the file it was opened on, also
  after the path is renamed over or unlinked. Directories are taken to exist.
\<close>

record fsys =
  names :: "string \<rightharpoonup> nat"
  data :: "nat \<Rightarrow> string"
  next_ino :: nat

definition fs_read :: "fsys \<Rightarrow> string \<Rightarrow> string option" where
  "fs_read fs p = map_option (data fs) (names fs p)"

definition fs_create :: "fsys \<Rightarrow> string \<Rightarrow> fsys" where
  "fs_create fs p =
     fs\<lparr>names := (names fs)(p \<mapsto> next_ino fs),
        data := (data fs)(next_ino fs := []),
        next_ino := Suc (next_ino fs)\<rparr>"

text \<open>\<^verbatim>\<open>fs.open(path, "a")\<close>: the file of the path, created empty when there is none.\<close>

definition fs_open_append :: "fsys \<Rightarrow> string \<Rightarrow> nat \<times> fsys" where
  "fs_open_append fs p =
     (case names fs p of
        Some i \<Rightarrow> (i, fs)
      | None \<Rightarrow> (next_ino fs, fs_create fs p))"

text \<open>\<^verbatim>\<open>handle.appendFile(s)\<close> on the file of the handle.\<close>

definition fs_append :: "fsys \<Rightarrow> nat \<Rightarrow> string \<Rightarrow> fsys" where
  "fs_append fs i s = fs\<lparr>data := (data fs)(i := data fs i @ s)\<rparr>"

text \<open>Opening a path for writing (flag \<^verbatim>\<open>w\<close>) and writing \<open>s\<close>: created or truncated.\<close>

definition fs_write :: "fsys \<Rightarrow> string \<Rightarrow> string \<Rightarrow> fsys" where
  "fs_write fs p s =
     (case names fs p of
        Some i \<Rightarrow> fs\<lparr>data := (data fs)(i := s)\<rparr>
      | None \<Rightarrow> (let fs' = fs_create fs p in fs'\<lparr>data := (data fs')(next_ino fs := s)\<rparr>))"

definition fs_rename :: "fsys \<Rightarrow> string \<Rightarrow> string \<Rightarrow> error + fsys" where
  "fs_rename fs a b =
     (case names fs a of
        None \<Rightarrow> Inl ENOENT
      | Some i \<Rightarrow> Inr (if a = b then fs else fs\<lparr>names := (names fs)(b \<mapsto> i, a := None)\<rparr>))"

definition fs_unlink :: "fsys \<Rightarrow> string \<Rightarrow> error + fsys" where
  "fs_unlink fs p =
     (case names fs p of
        None \<Rightarrow> Inl ENOENT
      | Some i \<Rightarrow> Inr (fs\<lparr>names := (names fs)(p := None)\<rparr>))"

text \<open>\<^verbatim>\<open>path.join(a, b)\<close> for segments that need no further normalisation.\<close>

definition path_join :: "string \<Rightarrow> string \<Rightarrow> string" where
  "path_join a b = a @ ''/'' @ dropWhile (\<lambda>c. c = CHR ''/'') b"

section \<open>FileWriter\<close>

text \<open>
  A cached handle is identified with the file it is open on. \<open>timers\<close> are the pending
  timeouts of the runtime, each with the id whose file it will close.
\<close>

record FileState =
  handle :: nat
  timer :: "nat option"

record FileWriter =
  baseDir :: string
  idleTimeoutMs :: nat
  fileStates :: "string \<rightharpoonup> FileState"
  timers :: "nat \<rightharpoonup> string"
  next_timer :: nat

definition new_FileWriter :: "string \<Rightarrow> string \<Rightarrow> nat \<Rightarrow> FileWriter" where
  "new_FileWriter cwd dir idle =
     \<lparr>baseDir = path_join cwd dir, idleTimeoutMs = idle, fileStates = Map.empty,
      timers = Map.empty, next_timer = 0\<rparr>"

text \<open>The constructor's defaults.\<close>

definition default_FileWriter :: "string \<Rightarrow> FileWriter" where
  "default_FileWriter cwd = new_FileWriter cwd ''/transcripts/active'' 5000"

text \<open>\<^verbatim>\<open>resetIdleTimer\<close>: the state's timeout is cleared and a new one is set.\<close>

definition resetIdleTimer :: "FileWriter \<Rightarrow> string \<Rightarrow> FileState \<Rightarrow> FileWriter" where
  "resetIdleTimer fw ident st =
     (let cleared = (case timer st of None \<Rightarrow> timers fw | Some t \<Rightarrow> (timers fw)(t := None));
          t' = next_timer fw
      in fw\<lparr>fileStates := (fileStates fw)(ident \<mapsto> st\<lparr>timer := Some t'\<rparr>),
             timers := cleared(t' \<mapsto> ident),
             next_timer := Suc t'\<rparr>)"

definition getFileHandle :: "FileWriter \<Rightarrow> fsys \<Rightarrow> string \<Rightarrow> nat \<times> FileWriter \<times> fsys" where
  "getFileHandle fw fs ident =
     (case fileStates fw ident of
        Some st \<Rightarrow> (handle st, resetIdleTimer fw ident st, fs)
      | None \<Rightarrow>
          (let filePath = path_join (baseDir fw) (ident @ ''.jsonl'');
               (h, fs') = fs_open_append fs filePath;
               st = \<lparr>handle = h, timer = None\<rparr>
           in (h, resetIdleTimer (fw\<lparr>fileStates := (fileStates fw)(ident \<mapsto> st)\<rparr>) ident st, fs')))"

text \<open>The task that \<^verbatim>\<open>append\<close> queues.\<close>

definition append_task :: "FileWriter \<Rightarrow> fsys \<Rightarrow> string \<Rightarrow> string \<Rightarrow> FileWriter \<times> fsys" where
  "append_task fw fs ident obj =
     (let serialized = obj @ [LF];
          (h, fw', fs') = getFileHandle fw fs ident
      in (fw', fs_append fs' h serialized))"

text \<open>The tasks of successive \<^verbatim>\<open>append\<close> calls for one id, run in the order of the calls.\<close>

fun append_all :: "FileWriter \<Rightarrow> fsys \<Rightarrow> string \<Rightarrow> string list \<Rightarrow> FileWriter \<times> fsys" where
  "append_all fw fs ident [] = (fw, fs)"
| "append_all fw fs ident (obj # objs) =
     (case append_task fw fs ident obj of (fw', fs') \<Rightarrow> append_all fw' fs' ident objs)"

subsection \<open>The handles, step by step\<close>

text \<open>
  \<^verbatim>\<open>getFileHandle\<close> and \<^verbatim>\<open>closeFile\<close> each await once, and other callbacks run
  meanwhile. Here a handle is named by the order in which it was opened. It is \<open>Open\<close>
  until \<^verbatim>\<open>close()\<close> is called on it, \<open>Closing\<close> until the runtime has closed it, and
  \<open>Closed\<close> from then on. \<open>awaiting_open\<close> holds the ids for which \<^verbatim>\<open>getFileHandle\<close> awaits
  \<^verbatim>\<open>fs.open\<close>, and \<open>closers\<close> the calls of \<^verbatim>\<open>closeFile\<close> that await \<^verbatim>\<open>close()\<close>, each with
  its id and the handle it found.
\<close>

datatype hstatus = Open | Closing | Closed

record handles =
  writer :: FileWriter
  descriptors :: "(string \<times> hstatus) list"
  awaiting_open :: "string list"
  closers :: "(string \<times> nat) list"

definition init_handles :: "FileWriter \<Rightarrow> handles" where
  "init_handles fw = \<lparr>writer = fw, descriptors = [], awaiting_open = [], closers = []\<rparr>"

text \<open>
  \<^verbatim>\<open>getFileHandle\<close> up to its await: on a cached state the timer is reset and the cached
  handle returned; otherwise the file is being opened.
\<close>

definition getFileHandle_call :: "handles \<Rightarrow> string \<Rightarrow> handles" where
  "getFileHandle_call s ident =
     (case fileStates (writer s) ident of
        Some st \<Rightarrow> s\<lparr>writer := resetIdleTimer (writer s) ident st\<rparr>
      | None \<Rightarrow> s\<lparr>awaiting_open := awaiting_open s @ [ident]\<rparr>)"

text \<open>\<^verbatim>\<open>getFileHandle\<close> after \<^verbatim>\<open>fs.open\<close> has resolved with a new handle.\<close>

definition getFileHandle_opened :: "handles \<Rightarrow> string \<Rightarrow> handles" where
  "getFileHandle_opened s ident =
     (let h = length (descriptors s);
          st = \<lparr>handle = h, timer = None\<rparr>
      in s\<lparr>writer := resetIdleTimer ((writer s)\<lparr>fileStates := (fileStates (writer s))(ident \<mapsto> st)\<rparr>)
                        ident st,
           descriptors := descriptors s @ [(ident, Open)],
           awaiting_open := remove1 ident (awaiting_open s)\<rparr>)"

text \<open>
  \<^verbatim>\<open>closeFile\<close> up to its await. \<^verbatim>\<open>close()\<close> on an open handle starts closing it, and
  the call waits. On a handle whose \<^verbatim>\<open>close()\<close> was called before, the handle has no
  descriptor any more and the promise that \<^verbatim>\<open>close()\<close> returns is settled at once
  (\<^verbatim>\<open>catch\<close> drops an error), so the call goes on to \<^verbatim>\<open>fileStates.delete(id)\<close> before
  any other callback runs. With no state for the id, nothing happens.
\<close>

definition closeFile_call :: "handles \<Rightarrow> string \<Rightarrow> handles" where
  "closeFile_call s ident =
     (case fileStates (writer s) ident of
        None \<Rightarrow> s
      | Some st \<Rightarrow>
          if handle st < length (descriptors s) \<and> snd (descriptors s ! handle st) = Open
          then s\<lparr>descriptors := (descriptors s)[handle st := (fst (descriptors s ! handle st), Closing)],
                 closers := closers s @ [(ident, handle st)]\<rparr>
          else s\<lparr>writer := (writer s)\<lparr>fileStates := (fileStates (writer s))(ident := None)\<rparr>\<rparr>)"

text \<open>
  \<^verbatim>\<open>closeFile\<close> after its await, for the call \<open>(ident, h)\<close>: the handle is closed, and
  the entry that the cache holds for the id now is deleted.
\<close>

definition closeFile_closed :: "handles \<Rightarrow> string \<times> nat \<Rightarrow> handles" where
  "closeFile_closed s c =
     s\<lparr>writer := (writer s)\<lparr>fileStates := (fileStates (writer s))(fst c := None)\<rparr>,
       descriptors := (descriptors s)[snd c := (fst (descriptors s ! snd c), Closed)],
       closers := remove1 c (closers s)\<rparr>"

text \<open>
  The steps: a task of \<^verbatim>\<open>append\<close> calls \<^verbatim>\<open>getFileHandle\<close> (the tasks of an id run one at
  a time, so none is opening the file of the id); \<^verbatim>\<open>fs.open\<close> resolves; a pending timer
  fires and calls \<^verbatim>\<open>closeFile\<close>; the runtime has closed a handle.
\<close>

datatype hevent = GetHandle string | OpenDone string | TimerFires nat | CloseDone nat

fun hfire :: "handles \<Rightarrow> hevent \<Rightarrow> handles option" where
  "hfire s (GetHandle k) =
     (if k \<in> set (awaiting_open s) then None else Some (getFileHandle_call s k))"
| "hfire s (OpenDone k) =
     (if k \<in> set (awaiting_open s) then Some (getFileHandle_opened s k) else None)"
| "hfire s (TimerFires t) =
     (case timers (writer s) t of
        None \<Rightarrow> None
      | Some k \<Rightarrow>
          Some (closeFile_call (s\<lparr>writer := (writer s)\<lparr>timers := (timers (writer s))(t := None)\<rparr>\<rparr>) k))"
| "hfire s (CloseDone h) =
     (case find (\<lambda>c. snd c = h) (closers s) of
        None \<Rightarrow> None
      | Some c \<Rightarrow> Some (closeFile_closed s c))"

fun hrun :: "handles \<Rightarrow> hevent list \<Rightarrow> handles option" where
  "hrun s [] = Some s"
| "hrun s (e # es) = (case hfire s e of None \<Rightarrow> None | Some s' \<Rightarrow> hrun s' es)"

subsection \<open>The queue of an id\<close>

text \<open>
  \<^verbatim>\<open>append\<close>, \<^verbatim>\<open>edit\<close> and \<^verbatim>\<open>delete\<close> chain their task in the same way:
  \<^verbatim>\<open>last = queues.get(id) || Promise.resolve()\<close>,
  \<^verbatim>\<open>next = last.catch(log).then(task)\<close>, \<^verbatim>\<open>queues.set(id, next)\<close>.
  A call is recorded with its two promises: \<open>c_caught\<close> is \<^verbatim>\<open>last.catch(...)\<close> and \<open>c_next\<close>
  is \<^verbatim>\<open>next\<close>. The promise \<^verbatim>\<open>next\<close> of a call is named by the position of the call, so
  \<open>queues\<close> maps an id to the position of the call whose \<^verbatim>\<open>next\<close> it holds, and the
  source \<^verbatim>\<open>last\<close> of a call is that promise or a resolved one.
\<close>

datatype pstate = Pending | Fulfilled | Rejected

text \<open>
  How a started task ends: its promise is fulfilled, or rejected with an error, or the
  process ends on an \<^verbatim>\<open>'error'\<close> event that has no listener, with the promise left
  pending.
\<close>

datatype ending = Resolves | Rejects error | Exits error

datatype source = Resolved | Next nat

datatype 'n request = AppendReq string | EditReq "'n json" | DeleteReq "'n json"

record 'n call =
  c_id :: string
  c_request :: "'n request"
  c_last :: source
  c_caught :: pstate
  c_started :: bool
  c_next :: pstate

text \<open>\<open>alive\<close>: the process is running.\<close>

record 'n queue_state =
  queues :: "string \<rightharpoonup> nat"
  calls :: "'n call list"
  alive :: bool

text \<open>No call has been made yet.\<close>

definition init_queue :: "'n queue_state" where
  "init_queue = \<lparr>queues = Map.empty, calls = [], alive = True\<rparr>"

text \<open>The state of the promise \<^verbatim>\<open>last\<close> of a call.\<close>

definition source_state :: "'n queue_state \<Rightarrow> source \<Rightarrow> pstate" where
  "source_state s src = (case src of Resolved \<Rightarrow> Fulfilled | Next p \<Rightarrow> c_next (calls s ! p))"

text \<open>The synchronous part of a call, common to the three methods.\<close>

definition submit :: "'n queue_state \<Rightarrow> string \<Rightarrow> 'n request \<Rightarrow> 'n queue_state" where
  "submit s k r =
     (let last = (case queues s k of None \<Rightarrow> Resolved | Some p \<Rightarrow> Next p);
          next = \<lparr>c_id = k, c_request = r, c_last = last, c_caught = Pending,
                  c_started = False, c_next = Pending\<rparr>
      in s\<lparr>queues := (queues s)(k \<mapsto> length (calls s)), calls := calls s @ [next]\<rparr>)"

text \<open>
  The tasks of \<^verbatim>\<open>edit\<close> and \<^verbatim>\<open>delete\<close> open streams and attach no \<^verbatim>\<open>'error'\<close> listener
  to them; the task of \<^verbatim>\<open>append\<close> awaits promises only.
\<close>

fun uses_streams :: "'n request \<Rightarrow> bool" where
  "uses_streams (AppendReq l) = False"
| "uses_streams (EditReq obj) = True"
| "uses_streams (DeleteReq obj) = True"

text \<open>
  What happens, one step at a time, in any order the event loop allows, while the
  process is running: a call; the reaction of \<^verbatim>\<open>catch\<close> once \<^verbatim>\<open>last\<close> has settled,
  which fulfils its promise whether \<^verbatim>\<open>last\<close> was fulfilled or rejected (the handler only
  logs); the reaction of \<^verbatim>\<open>then\<close> once that promise has settled, which starts the task
  if it was fulfilled and rejects \<^verbatim>\<open>next\<close> without running the task otherwise; the
  settlement of a started task, fulfilled or rejected as its I/O decides; and the end of
  the process when a stream of a started task emits \<^verbatim>\<open>'error'\<close>, which settles nothing.
  \<open>fire\<close> is \<open>None\<close> for a step that cannot happen in the state.
\<close>

datatype 'n event =
  Call string "'n request" | Catch nat | Then nat | Settle nat bool | Exit nat

fun fire :: "'n queue_state \<Rightarrow> 'n event \<Rightarrow> 'n queue_state option" where
  "fire s (Call k r) = (if alive s then Some (submit s k r) else None)"
| "fire s (Catch j) =
     (if alive s \<and> j < length (calls s) \<and> c_caught (calls s ! j) = Pending
         \<and> source_state s (c_last (calls s ! j)) \<noteq> Pending
      then Some (s\<lparr>calls := (calls s)[j := (calls s ! j)\<lparr>c_caught := Fulfilled\<rparr>]\<rparr>)
      else None)"
| "fire s (Then j) =
     (if alive s \<and> j < length (calls s) \<and> c_caught (calls s ! j) \<noteq> Pending
         \<and> \<not> c_started (calls s ! j) \<and> c_next (calls s ! j) = Pending
      then (if c_caught (calls s ! j) = Fulfilled
            then Some (s\<lparr>calls := (calls s)[j := (calls s ! j)\<lparr>c_started := True\<rparr>]\<rparr>)
            else Some (s\<lparr>calls := (calls s)[j := (calls s ! j)\<lparr>c_next := Rejected\<rparr>]\<rparr>))
      else None)"
| "fire s (Settle j ok) =
     (if alive s \<and> j < length (calls s) \<and> c_started (calls s ! j)
         \<and> c_next (calls s ! j) = Pending
      then Some (s\<lparr>calls := (calls s)[j := (calls s ! j)\<lparr>c_next := (if ok then Fulfilled else Rejected)\<rparr>]\<rparr>)
      else None)"
| "fire s (Exit j) =
     (if alive s \<and> j < length (calls s) \<and> c_started (calls s ! j)
         \<and> c_next (calls s ! j) = Pending \<and> uses_streams (c_request (calls s ! j))
      then Some (s\<lparr>alive := False\<rparr>)
      else None)"

text \<open>The step with which the task of call \<open>j\<close> ends.\<close>

definition ends_with :: "nat \<Rightarrow> ending \<Rightarrow> 'n event" where
  "ends_with j e =
     (case e of Resolves \<Rightarrow> Settle j True | Rejects x \<Rightarrow> Settle j False | Exits x \<Rightarrow> Exit j)"

fun run :: "'n queue_state \<Rightarrow> 'n event list \<Rightarrow> 'n queue_state option" where
  "run s [] = Some s"
| "run s (e # es) = (case fire s e of None \<Rightarrow> None | Some s' \<Rightarrow> run s' es)"

subsection \<open>Rewriting: edit and delete\<close>

text \<open>
  The condition of the \<^verbatim>\<open>try\<close> block, \<^verbatim>\<open>JSON.parse(line).id === obj.id\<close>, with what it
  throws. \<open>parse\<close> is the runtime's \<^verbatim>\<open>JSON.parse\<close> (\<open>None\<close> where it throws) and
  \<open>stringify\<close> its \<^verbatim>\<open>JSON.stringify\<close>.
\<close>

definition id_matches :: "(string \<Rightarrow> 'n json option) \<Rightarrow> 'n json \<Rightarrow> string \<Rightarrow> error + bool" where
  "id_matches parse obj line =
     (case parse line of
        None \<Rightarrow> Inl SyntaxError
      | Some parsed \<Rightarrow>
          (case get_id parsed of
             Inl e \<Rightarrow> Inl e
           | Inr pid \<Rightarrow>
               (case get_id obj of
                  Inl e \<Rightarrow> Inl e
                | Inr oid \<Rightarrow> Inr (strict_eq pid oid))))"

text \<open>The loops over the lines; \<open>out\<close> is what has been written to the temporary file.\<close>

fun edit_loop :: "(string \<Rightarrow> 'n json option) \<Rightarrow> ('n json \<Rightarrow> string) \<Rightarrow> 'n json \<Rightarrow>
    string list \<Rightarrow> string \<Rightarrow> string" where
  "edit_loop parse stringify obj [] out = out"
| "edit_loop parse stringify obj (line # rest) out =
     (if is_blank line then edit_loop parse stringify obj rest (out @ [LF])
      else (case id_matches parse obj line of
              Inr True \<Rightarrow> edit_loop parse stringify obj rest (out @ stringify obj @ [LF])
            | Inr False \<Rightarrow> edit_loop parse stringify obj rest (out @ line @ [LF])
            | Inl e \<Rightarrow> edit_loop parse stringify obj rest (out @ line @ [LF])))"

fun delete_loop :: "(string \<Rightarrow> 'n json option) \<Rightarrow> 'n json \<Rightarrow> string list \<Rightarrow> string \<Rightarrow> string" where
  "delete_loop parse obj [] out = out"
| "delete_loop parse obj (line # rest) out =
     (if is_blank line then delete_loop parse obj rest (out @ [LF])
      else (case id_matches parse obj line of
              Inr True \<Rightarrow> delete_loop parse obj rest out
            | Inr False \<Rightarrow> delete_loop parse obj rest (out @ line @ [LF])
            | Inl e \<Rightarrow> delete_loop parse obj rest (out @ line @ [LF])))"

text \<open>
  The tasks that \<^verbatim>\<open>edit\<close> and \<^verbatim>\<open>delete\<close> queue: nothing when the file cannot be
  accessed; otherwise the file is read as UTF-8 text (\<open>decode\<close>), its lines are
  rewritten into the temporary file, and that is renamed over the file. \<open>werr\<close> is the
  error with which opening the temporary file fails, if it does: the write stream then
  emits \<^verbatim>\<open>'error'\<close>, which no listener handles, and the process ends with the files as they
  were. A task returns how it ends and the file system it leaves.
\<close>

definition edit_task :: "(string \<Rightarrow> 'n json option) \<Rightarrow> ('n json \<Rightarrow> string) \<Rightarrow> (string \<Rightarrow> string) \<Rightarrow>
    error option \<Rightarrow> FileWriter \<Rightarrow> fsys \<Rightarrow> string \<Rightarrow> 'n json \<Rightarrow> ending \<times> fsys" where
  "edit_task parse stringify decode werr fw fs ident obj =
     (let filePath = path_join (baseDir fw) (ident @ ''.jsonl'');
          tempPath = filePath @ ''.tmp''
      in case fs_read fs filePath of
           None \<Rightarrow> (Resolves, fs)
         | Some content \<Rightarrow>
             (case werr of
                Some e \<Rightarrow> (Exits e, fs)
              | None \<Rightarrow>
                  (let fs1 = fs_write fs tempPath
                               (edit_loop parse stringify obj (readline_lines (decode content)) [])
                   in case fs_rename fs1 tempPath filePath of
                        Inl e \<Rightarrow> (Rejects e, fs1)
                      | Inr fs2 \<Rightarrow> (Resolves, fs2))))"

definition delete_task :: "(string \<Rightarrow> 'n json option) \<Rightarrow> (string \<Rightarrow> string) \<Rightarrow>
    error option \<Rightarrow> FileWriter \<Rightarrow> fsys \<Rightarrow> string \<Rightarrow> 'n json \<Rightarrow> ending \<times> fsys" where
  "delete_task parse decode werr fw fs ident obj =
     (let filePath = path_join (baseDir fw) (ident @ ''.jsonl'');
          tempPath = filePath @ ''.tmp''
      in case fs_read fs filePath of
           None \<Rightarrow> (Resolves, fs)
         | Some content \<Rightarrow>
             (case werr of
                Some e \<Rightarrow> (Exits e, fs)
              | None \<Rightarrow>
                  (let fs1 = fs_write fs tempPath
                               (delete_loop parse obj (readline_lines (decode content)) [])
                   in case fs_rename fs1 tempPath filePath of
                        Inl e \<Rightarrow> (Rejects e, fs1)
                      | Inr fs2 \<Rightarrow> (Resolves, fs2))))"

section \<open>finishTranscript\<close>

text \<open>
  \<^verbatim>\<open>finishTranscript\<close> reads the active file as a UTF-8 stream as well, and writes
  nothing of what it read back: the lines only reach \<^verbatim>\<open>trim\<close> and \<^verbatim>\<open>JSON.parse\<close>. A line
  feed is a byte of its own in UTF-8 and in what the decoder returns, and the white space
  at the two ends of a line is the same before and after decoding, so the lines are taken
  from the bytes of the file, and \<open>parse\<close> stands for decoding a line and parsing it.
\<close>

text \<open>The chunks of a read stream whose buffer holds \<open>n\<close> characters.\<close>

function chunks_of :: "nat \<Rightarrow> string \<Rightarrow> string list" where
  "chunks_of n s =
     (if s = [] then [] else if n = 0 then [s] else take n s # chunks_of n (drop n s))"
  by pat_completeness auto
termination
  by (relation "measure (\<lambda>(n, s). length s)") auto

declare chunks_of.simps [simp del]

text \<open>The inner loop over the complete lines of a chunk.\<close>

fun parse_lines :: "(string \<Rightarrow> 'n json option) \<Rightarrow> string list \<Rightarrow> 'n json list \<times> nat \<Rightarrow>
    error + 'n json list \<times> nat" where
  "parse_lines parse [] st = Inr st"
| "parse_lines parse (line # rest) (messages, lineIndex) =
     (if is_blank line then parse_lines parse rest (messages, lineIndex)
      else (case parse line of
              None \<Rightarrow> Inl SyntaxError
            | Some js \<Rightarrow> parse_lines parse rest (messages @ [js], lineIndex + 1)))"

text \<open>The outer loop over the chunks; the state is \<open>(buffer, messages, lineIndex)\<close>.\<close>

fun read_chunks :: "(string \<Rightarrow> 'n json option) \<Rightarrow> string list \<Rightarrow> string \<times> 'n json list \<times> nat \<Rightarrow>
    error + string \<times> 'n json list \<times> nat" where
  "read_chunks parse [] st = Inr st"
| "read_chunks parse (chunk # chunks) (buffer, messages, lineIndex) =
     (let lines = split_nl (buffer @ chunk) in
      case parse_lines parse (butlast lines) (messages, lineIndex) of
        Inl e \<Rightarrow> Inl e
      | Inr (messages', lineIndex') \<Rightarrow> read_chunks parse chunks (last lines, messages', lineIndex'))"

text \<open>What follows the last line feed, once the stream has ended.\<close>

definition finish_buffer :: "(string \<Rightarrow> 'n json option) \<Rightarrow> 'n json \<Rightarrow> string \<times> 'n json list \<times> nat \<Rightarrow>
    error + 'n json \<times> 'n json list" where
  "finish_buffer parse metadata st =
     (case st of (buffer, messages, lineIndex) \<Rightarrow>
        if is_blank buffer then Inr (metadata, messages)
        else (case parse buffer of
                None \<Rightarrow> Inl SyntaxError
              | Some js \<Rightarrow>
                  if lineIndex = 0 then Inr (js, messages) else Inr (metadata, messages @ [js])))"

definition finishTranscript :: "(string \<Rightarrow> 'n json option) \<Rightarrow> ('n json \<Rightarrow> string) \<Rightarrow> nat \<Rightarrow> string \<Rightarrow>
    fsys \<Rightarrow> string \<Rightarrow> 'n json \<Rightarrow> error option \<times> fsys" where
  "finishTranscript parse stringify hwm cwd fs ident metadata =
     (let inputPath = path_join (path_join cwd ''/transcripts/active'') (ident @ ''.jsonl'');
          outputPath = path_join (path_join cwd ''/transcripts/complete'') (ident @ ''.json'')
      in case fs_read fs inputPath of
           None \<Rightarrow> (Some ENOENT, fs)
         | Some content \<Rightarrow>
             (case read_chunks parse (chunks_of hwm content) ([], [], 0) of
                Inl e \<Rightarrow> (Some e, fs)
              | Inr st \<Rightarrow>
                  (case finish_buffer parse metadata st of
                     Inl e \<Rightarrow> (Some e, fs)
                   | Inr (metadata', messages) \<Rightarrow>
                       (let fs1 = fs_write fs outputPath
                                    (stringify (JObj [(''metadata'', metadata'),
                                                      (''messages'', JArr messages)]))
                        in case fs_unlink fs1 inputPath of
                             Inl e \<Rightarrow> (Some e, fs1)
                           | Inr fs2 \<Rightarrow> (None, fs2)))))"

section \<open>A reference JSON parser and printer\<close>

text \<open>
  \<^verbatim>\<open>JSON.parse\<close> and \<^verbatim>\<open>JSON.stringify\<close> belong to the runtime; the operations above take
  them as parameters. For concrete files, \<open>json_parse\<close> and \<open>json_stringify\<close> follow
  ECMA-404 on a fragment: numbers are integers of magnitude at most \<open>2 ^ 53\<close> without
  fraction or exponent, strings have no \<^verbatim>\<open>\u\<close> escapes, and no object key is an array
  index. On this fragment numbers are exact and properties keep their textual order; a
  repeated key keeps its first position and its last value. Texts outside the fragment
  are rejected and are not used below.
\<close>

definition json_ws :: "char \<Rightarrow> bool" where
  "json_ws c = (c = CHR 0x20 \<or> c = CHR 0x09 \<or> c = CHR 0x0A \<or> c = CHR 0x0D)"

definition skip_ws :: "string \<Rightarrow> string" where
  "skip_ws s = dropWhile json_ws s"

definition is_digit :: "char \<Rightarrow> bool" where
  "is_digit c = (48 \<le> (of_char c :: nat) \<and> (of_char c :: nat) \<le> 57)"

definition digit_val :: "char \<Rightarrow> int" where
  "digit_val c = of_char c - 48"

definition unescape :: "char \<Rightarrow> char option" where
  "unescape e =
     (if e = CHR 0x22 then Some (CHR 0x22)
      else if e = CHR 0x5C then Some (CHR 0x5C)
      else if e = CHR ''/'' then Some (CHR ''/'')
      else if e = CHR ''b'' then Some (CHR 0x08)
      else if e = CHR ''f'' then Some (CHR 0x0C)
      else if e = CHR ''n'' then Some (CHR 0x0A)
      else if e = CHR ''r'' then Some (CHR 0x0D)
      else if e = CHR ''t'' then Some (CHR 0x09)
      else None)"

text \<open>The characters of a string literal after its opening quote, and what follows it.\<close>

fun parse_string_body :: "string \<Rightarrow> (string \<times> string) option" where
  "parse_string_body [] = None"
| "parse_string_body (c # cs) =
     (if c = CHR 0x22 then Some ([], cs)
      else if c = CHR 0x5C then
        (case cs of
           [] \<Rightarrow> None
         | e # es \<Rightarrow>
             (case unescape e of
                None \<Rightarrow> None
              | Some ch \<Rightarrow>
                  (case parse_string_body es of
                     None \<Rightarrow> None
                   | Some (str, r) \<Rightarrow> Some (ch # str, r))))
      else if (of_char c :: nat) < 32 then None
      else (case parse_string_body cs of
              None \<Rightarrow> None
            | Some (str, r) \<Rightarrow> Some (c # str, r)))"

definition parse_number :: "string \<Rightarrow> (int \<times> string) option" where
  "parse_number s =
     (let neg = (s \<noteq> [] \<and> hd s = CHR ''-'');
          s1 = (if neg then tl s else s);
          ds = takeWhile is_digit s1;
          r = dropWhile is_digit s1;
          n = foldl (\<lambda>a d. 10 * a + digit_val d) 0 ds
      in if ds = [] then None
         else if 1 < length ds \<and> hd ds = CHR ''0'' then None
         else if r \<noteq> [] \<and> (hd r = CHR ''.'' \<or> hd r = CHR ''e'' \<or> hd r = CHR ''E'') then None
         else if 2 ^ 53 < n then None
         else Some (if neg then - n else n, r))"

definition is_index_key :: "string \<Rightarrow> bool" where
  "is_index_key k = (k \<noteq> [] \<and> list_all is_digit k \<and> (k = ''0'' \<or> hd k \<noteq> CHR ''0''))"

fun obj_put :: "(string \<times> 'v) list \<Rightarrow> string \<Rightarrow> 'v \<Rightarrow> (string \<times> 'v) list" where
  "obj_put [] k v = [(k, v)]"
| "obj_put ((k', v') # kvs) k v = (if k' = k then (k, v) # kvs else (k', v') # obj_put kvs k v)"

definition strip_prefix :: "string \<Rightarrow> string \<Rightarrow> string option" where
  "strip_prefix p s = (if take (length p) s = p then Some (drop (length p) s) else None)"

text \<open>
  Recursive descent; the first argument bounds the depth of the calls, and
  \<open>json_parse\<close> gives enough of it for the whole text.
\<close>

fun parse_value :: "nat \<Rightarrow> string \<Rightarrow> (int json \<times> string) option"
  and parse_elems :: "nat \<Rightarrow> string \<Rightarrow> (int json list \<times> string) option"
  and parse_members :: "nat \<Rightarrow> (string \<times> int json) list \<Rightarrow> string \<Rightarrow>
        ((string \<times> int json) list \<times> string) option" where
  "parse_value 0 s = None"
| "parse_value (Suc n) s =
     (case skip_ws s of
        [] \<Rightarrow> None
      | c # cs \<Rightarrow>
          if c = CHR ''{'' then
            (case skip_ws cs of
               [] \<Rightarrow> None
             | d # ds \<Rightarrow>
                 if d = CHR ''}'' then Some (JObj [], ds)
                 else (case parse_members n [] (d # ds) of
                         None \<Rightarrow> None
                       | Some (kvs, r) \<Rightarrow> Some (JObj kvs, r)))
          else if c = CHR ''['' then
            (case skip_ws cs of
               [] \<Rightarrow> None
             | d # ds \<Rightarrow>
                 if d = CHR '']'' then Some (JArr [], ds)
                 else (case parse_elems n (d # ds) of
                         None \<Rightarrow> None
                       | Some (vs, r) \<Rightarrow> Some (JArr vs, r)))
          else if c = CHR 0x22 then
            (case parse_string_body cs of
               None \<Rightarrow> None
             | Some (str, r) \<Rightarrow> Some (JStr str, r))
          else if c = CHR ''n'' then map_option (Pair JNull) (strip_prefix ''null'' (c # cs))
          else if c = CHR ''t'' then map_option (Pair (JBool True)) (strip_prefix ''true'' (c # cs))
          else if c = CHR ''f'' then map_option (Pair (JBool False)) (strip_prefix ''false'' (c # cs))
          else (case parse_number (c # cs) of
                  None \<Rightarrow> None
                | Some (i, r) \<Rightarrow> Some (JNum i, r)))"
| "parse_elems 0 s = None"
| "parse_elems (Suc n) s =
     (case parse_value n s of
        None \<Rightarrow> None
      | Some (v, r) \<Rightarrow>
          (case skip_ws r of
             [] \<Rightarrow> None
           | c # cs \<Rightarrow>
               if c = CHR '','' then
                 (case parse_elems n cs of
                    None \<Rightarrow> None
                  | Some (vs, r') \<Rightarrow> Some (v # vs, r'))
               else if c = CHR '']'' then Some ([v], cs)
               else None))"
| "parse_members 0 acc s = None"
| "parse_members (Suc n) acc s =
     (case skip_ws s of
        [] \<Rightarrow> None
      | c # cs \<Rightarrow>
          if c \<noteq> CHR 0x22 then None
          else (case parse_string_body cs of
                  None \<Rightarrow> None
                | Some (k, r) \<Rightarrow>
                    if is_index_key k then None
                    else (case skip_ws r of
                            [] \<Rightarrow> None
                          | d # ds \<Rightarrow>
                              if d \<noteq> CHR '':'' then None
                              else (case parse_value n ds of
                                      None \<Rightarrow> None
                                    | Some (v, r') \<Rightarrow>
                                        (case skip_ws r' of
                                           [] \<Rightarrow> None
                                         | e # es \<Rightarrow>
                                             if e = CHR '','' then parse_members n (obj_put acc k v) es
                                             else if e = CHR ''}'' then Some (obj_put acc k v, es)
                                             else None)))))"

definition json_parse :: "string \<Rightarrow> int json option" where
  "json_parse s =
     (case parse_value (2 * length s + 2) s of
        None \<Rightarrow> None
      | Some (v, r) \<Rightarrow> if skip_ws r = [] then Some v else None)"

fun show_nat :: "nat \<Rightarrow> string" where
  "show_nat n =
     (if n < 10 then [char_of (48 + n)] else show_nat (n div 10) @ [char_of (48 + n mod 10)])"

definition show_int :: "int \<Rightarrow> string" where
  "show_int i = (if i < 0 then CHR ''-'' # show_nat (nat (- i)) else show_nat (nat i))"

definition hex_digit :: "nat \<Rightarrow> char" where
  "hex_digit d = (if d < 10 then char_of (48 + d) else char_of (87 + d))"

definition escape_char :: "char \<Rightarrow> string" where
  "escape_char c =
     (if c = CHR 0x22 then [CHR 0x5C, CHR 0x22]
      else if c = CHR 0x5C then [CHR 0x5C, CHR 0x5C]
      else if c = CHR 0x08 then [CHR 0x5C, CHR ''b'']
      else if c = CHR 0x0C then [CHR 0x5C, CHR ''f'']
      else if c = CHR 0x0A then [CHR 0x5C, CHR ''n'']
      else if c = CHR 0x0D then [CHR 0x5C, CHR ''r'']
      else if c = CHR 0x09 then [CHR 0x5C, CHR ''t'']
      else if (of_char c :: nat) < 32 then
        [CHR 0x5C, CHR ''u'', CHR ''0'', CHR ''0'',
         hex_digit ((of_char c :: nat) div 16), hex_digit ((of_char c :: nat) mod 16)]
      else [c])"

definition quote :: "string \<Rightarrow> string" where
  "quote s = CHR 0x22 # concat (map escape_char s) @ [CHR 0x22]"

fun commas :: "string list \<Rightarrow> string" where
  "commas [] = []"
| "commas [x] = x"
| "commas (x # y # ys) = x @ '','' @ commas (y # ys)"

primrec json_stringify :: "int json \<Rightarrow> string" where
  "json_stringify JNull = ''null''"
| "json_stringify (JBool b) = (if b then ''true'' else ''false'')"
| "json_stringify (JNum i) = show_int i"
| "json_stringify (JStr s) = quote s"
| "json_stringify (JArr vs) = ''['' @ commas (map json_stringify vs) @ '']''"
| "json_stringify (JObj kvs) =
     ''{'' @ commas (map (\<lambda>kv. quote (fst kv) @ '':'' @ snd kv) (map (map_prod id json_stringify) kvs)) @ ''}''"

section \<open>A reference UTF-8 decoder\<close>

text \<open>
  The decoder of the read streams belongs to the runtime as well. For concrete files,
  \<open>utf8_decode\<close> follows the decoder of the Encoding Standard: a well-formed sequence
  is kept, and every maximal ill-formed part is replaced by U+FFFD.
\<close>

definition replacement :: string where
  "replacement = [CHR 0xEF, CHR 0xBF, CHR 0xBD]"

definition is_cont :: "char \<Rightarrow> bool" where
  "is_cont c = (128 \<le> (of_char c :: nat) \<and> (of_char c :: nat) \<le> 191)"

text \<open>The second byte that a lead byte of a sequence of three or four bytes admits.\<close>

definition second_ok :: "char \<Rightarrow> char \<Rightarrow> bool" where
  "second_ok b c =
     ((if b = CHR 0xE0 then 160 else if b = CHR 0xF0 then 144 else 128) \<le> (of_char c :: nat)
      \<and> (of_char c :: nat) \<le> (if b = CHR 0xED then 159 else if b = CHR 0xF4 then 143 else 191))"

fun utf8_decode :: "string \<Rightarrow> string" where
  "utf8_decode [] = []"
| "utf8_decode (b # bs) =
     (if (of_char b :: nat) < 128 then b # utf8_decode bs
      else if 194 \<le> (of_char b :: nat) \<and> (of_char b :: nat) \<le> 223 then
        (case bs of
           [] \<Rightarrow> replacement
         | c1 # r1 \<Rightarrow>
             if is_cont c1 then b # c1 # utf8_decode r1 else replacement @ utf8_decode bs)
      else if 224 \<le> (of_char b :: nat) \<and> (of_char b :: nat) \<le> 239 then
        (case bs of
           [] \<Rightarrow> replacement
         | c1 # r1 \<Rightarrow>
             if second_ok b c1 then
               (case r1 of
                  [] \<Rightarrow> replacement
                | c2 # r2 \<Rightarrow>
                    if is_cont c2 then b # c1 # c2 # utf8_decode r2
                    else replacement @ utf8_decode r1)
             else replacement @ utf8_decode bs)
      else if 240 \<le> (of_char b :: nat) \<and> (of_char b :: nat) \<le> 244 then
        (case bs of
           [] \<Rightarrow> replacement
         | c1 # r1 \<Rightarrow>
             if second_ok b c1 then
               (case r1 of
                  [] \<Rightarrow> replacement
                | c2 # r2 \<Rightarrow>
                    if is_cont c2 then
                      (case r2 of
                         [] \<Rightarrow> replacement
                       | c3 # r3 \<Rightarrow>
                           if is_cont c3 then b # c1 # c2 # c3 # utf8_decode r3
                           else replacement @ utf8_decode r2)
                    else replacement @ utf8_decode r1)
             else replacement @ utf8_decode bs)
      else replacement @ utf8_decode bs)"

section \<open>Notions used in the statements\<close>

text \<open>The paths of the active file and of the complete file of an id.\<close>

definition active_path :: "string \<Rightarrow> string \<Rightarrow> string" where
  "active_path cwd ident = path_join (path_join cwd ''/transcripts/active'') (ident @ ''.jsonl'')"

definition complete_path :: "string \<Rightarrow> string \<Rightarrow> string" where
  "complete_path cwd ident = path_join (path_join cwd ''/transcripts/complete'') (ident @ ''.json'')"

text \<open>The paths that the tasks of a writer compute for an id.\<close>

definition file_path :: "FileWriter \<Rightarrow> string \<Rightarrow> string" where
  "file_path fw ident = path_join (baseDir fw) (ident @ ''.jsonl'')"

definition temp_file :: "FileWriter \<Rightarrow> string \<Rightarrow> string" where
  "temp_file fw ident = file_path fw ident @ ''.tmp''"

text \<open>Lines, each followed by a line feed.\<close>

definition unlines_lf :: "string list \<Rightarrow> string" where
  "unlines_lf ls = concat (map (\<lambda>l. l @ [LF]) ls)"

text \<open>A text holds a line terminator of \<^verbatim>\<open>readline\<close>.\<close>

fun has_terminator :: "string \<Rightarrow> bool" where
  "has_terminator [] = False"
| "has_terminator (c # cs) =
     (c = LF \<or> c = CR \<or> at_separator (c # cs) \<or> has_terminator cs)"


text \<open>
  The only line of a content that is not blank is the text after its last line feed.
\<close>

definition trailing_only :: "string \<Rightarrow> bool" where
  "trailing_only content =
     (\<not> is_blank (last (split_nl content)) \<and> list_all is_blank (butlast (split_nl content)))"

text \<open>The rewrite loops take their first branch on a line.\<close>

definition line_matches :: "(string \<Rightarrow> 'n json option) \<Rightarrow> 'n json \<Rightarrow> string \<Rightarrow> bool" where
  "line_matches parse obj line = (\<not> is_blank line \<and> id_matches parse obj line = Inr True)"

text \<open>A line as the rewrite loops copy it: a whitespace-only line is written back empty.\<close>

definition copied :: "string \<Rightarrow> string" where
  "copied line = (if is_blank line then [] else line)"


text \<open>A file system that holds one file.\<close>

definition fs_single :: "string \<Rightarrow> string \<Rightarrow> fsys" where
  "fs_single p c = \<lparr>names = [p \<mapsto> 0], data = (\<lambda>i. if i = 0 then c else []), next_ino = 1\<rparr>"

definition fs_empty :: fsys where
  "fs_empty = \<lparr>names = Map.empty, data = (\<lambda>i. []), next_ino = 0\<rparr>"

text \<open>The writer and the files of the examples.\<close>

definition app_writer :: FileWriter where
  "app_writer = default_FileWriter ''/app''"

definition app_file :: "string \<Rightarrow> fsys" where
  "app_file c = fs_single (active_path ''/app'' ''s1'') c"



text \<open>Two records, the second of which has no line feed after it.\<close>

definition two_records_open :: string where
  "two_records_open = ''{\"a\":1}'' @ [LF] @ ''{\"b\":2}''"


definition lines_with_gap :: "string list" where
  "lines_with_gap = [''{\"id\":1}'', [], ''{\"id\":2}'']"




definition target_1 :: "int json" where
  "target_1 = JObj [(''id'', JNum 1), (''v'', JNum 5)]"



text \<open>The handles of an id on which \<^verbatim>\<open>close()\<close> has not been called.\<close>

definition open_handles :: "handles \<Rightarrow> string \<Rightarrow> nat list" where
  "open_handles s k = filter (\<lambda>h. descriptors s ! h = (k, Open)) [0..<length (descriptors s)]"

text \<open>
  Appends to one id around two idle periods. The first timer fires and the handle is
  being closed when an append finds it in the cache and sets a second timer; the close
  ends and the entry is deleted, and the next append opens a second handle and sets a
  third timer. The second and the third timer fire while the second handle is being
  closed, so the entry is deleted at once; an append opens a third handle before that
  close ends, the close ends and deletes the entry of the third handle, and the next
  append opens a fourth.
\<close>

definition stale_timer_schedule :: "hevent list" where
  "stale_timer_schedule =
     [GetHandle ''s1'', OpenDone ''s1'', TimerFires 0, GetHandle ''s1'', CloseDone 0,
      GetHandle ''s1'', OpenDone ''s1'', TimerFires 1, TimerFires 2,
      GetHandle ''s1'', OpenDone ''s1'', CloseDone 1,
      GetHandle ''s1'', OpenDone ''s1'']"

text \<open>The schedule up to the second call of \<^verbatim>\<open>fs.open\<close>.\<close>

definition second_open_schedule :: "hevent list" where
  "second_open_schedule = take 6 stale_timer_schedule"

text \<open>No id is being opened twice, and an id that is being opened has no cached state.\<close>

definition opening_inv :: "handles \<Rightarrow> bool" where
  "opening_inv s = (distinct (awaiting_open s) \<and> (\<forall>k\<in>set (awaiting_open s). fileStates (writer s) k = None))"

text \<open>The calls made by a sequence of events, in their order.\<close>

fun submitted :: "'n event list \<Rightarrow> (string \<times> 'n request) list" where
  "submitted [] = []"
| "submitted (Call k r # es) = (k, r) # submitted es"
| "submitted (e # es) = submitted es"

text \<open>
  What holds of every state of the queues: the source of a call is the \<^verbatim>\<open>next\<close> of the
  latest earlier call for the same id, or a resolved promise when there is none;
  \<open>queues\<close> holds the latest call of each id; and the promises of a call settle in the
  order source, \<open>c_caught\<close>, start of the task, \<open>c_next\<close>, with \<open>c_caught\<close> never rejected.
\<close>

definition chain_links :: "'n queue_state \<Rightarrow> bool" where
  "chain_links s =
     (\<forall>j<length (calls s).
        (case c_last (calls s ! j) of
           Resolved \<Rightarrow> (\<forall>i<j. c_id (calls s ! i) \<noteq> c_id (calls s ! j))
         | Next p \<Rightarrow> p < j \<and> c_id (calls s ! p) = c_id (calls s ! j)
             \<and> (\<forall>m. p < m \<and> m < j \<longrightarrow> c_id (calls s ! m) \<noteq> c_id (calls s ! j))))"

definition chain_tails :: "'n queue_state \<Rightarrow> bool" where
  "chain_tails s =
     (\<forall>k. (case queues s k of
              None \<Rightarrow> (\<forall>i<length (calls s). c_id (calls s ! i) \<noteq> k)
            | Some p \<Rightarrow> p < length (calls s) \<and> c_id (calls s ! p) = k
                \<and> (\<forall>m. p < m \<and> m < length (calls s) \<longrightarrow> c_id (calls s ! m) \<noteq> k)))"

definition chain_promises :: "'n queue_state \<Rightarrow> bool" where
  "chain_promises s =
     (\<forall>j<length (calls s).
        c_caught (calls s ! j) \<noteq> Rejected
        \<and> (c_caught (calls s ! j) = Fulfilled \<longrightarrow> source_state s (c_last (calls s ! j)) \<noteq> Pending)
        \<and> (c_started (calls s ! j) \<longrightarrow> c_caught (calls s ! j) = Fulfilled)
        \<and> (c_next (calls s ! j) \<noteq> Pending \<longrightarrow> c_started (calls s ! j)))"

definition chain_inv :: "'n queue_state \<Rightarrow> bool" where
  "chain_inv s = (chain_links s \<and> chain_tails s \<and> chain_promises s)"

text \<open>
  An \<^verbatim>\<open>edit\<close> and then an \<^verbatim>\<open>append\<close> for one id; the task of the \<^verbatim>\<open>edit\<close> has started.
\<close>

definition edit_then_append :: "int event list" where
  "edit_then_append =
     [Call ''s1'' (EditReq target_1), Call ''s1'' (AppendReq ''{\"id\":3}''), Catch 0, Then 0]"

section \<open>Auxiliary facts\<close>

subsection \<open>Lines and the rewrite loops\<close>

lemma edit_loop_eq:
  "edit_loop parse stringify obj ls out =
     out @ unlines_lf (map (\<lambda>l. if line_matches parse obj l then stringify obj else copied l) ls)"
  by (induction ls arbitrary: out)
     (auto simp: unlines_lf_def line_matches_def copied_def split: sum.splits bool.splits)

lemma delete_loop_eq:
  "delete_loop parse obj ls out =
     out @ unlines_lf (map copied (filter (\<lambda>l. \<not> line_matches parse obj l) ls))"
  by (induction ls arbitrary: out)
     (auto simp: unlines_lf_def line_matches_def copied_def split: sum.splits bool.splits)

lemma at_separator_line:
  assumes "\<not> at_separator (c # cs)"
  shows "\<not> at_separator (c # cs @ LF # rest)"
proof (cases cs)
  case Nil
  then show ?thesis by (cases rest) (simp_all add: LF_def)
next
  case (Cons d ds)
  then show ?thesis using assms by (cases ds) (simp_all add: LF_def)
qed

lemma readline_acc_line:
  "\<not> has_terminator l \<Longrightarrow>
   readline_acc acc (l @ LF # rest) = (rev acc @ l) # readline_acc [] rest"
proof (induction l arbitrary: acc)
  case Nil
  show ?case by simp
next
  case (Cons c cs)
  then have a: "c \<noteq> LF" "c \<noteq> CR" "\<not> at_separator (c # cs)" "\<not> has_terminator cs"
    by auto
  have "readline_acc acc ((c # cs) @ LF # rest) = readline_acc (c # acc) (cs @ LF # rest)"
    using a(1,2) at_separator_line [OF a(3), of rest] by simp
  also have "\<dots> = (rev (c # acc) @ cs) # readline_acc [] rest"
    by (rule Cons.IH [OF a(4)])
  finally show ?case by simp
qed

lemma readline_unlines:
  "\<forall>l\<in>set ls. \<not> has_terminator l \<Longrightarrow> readline_lines (unlines_lf ls) = ls"
  unfolding readline_lines_def unlines_lf_def
  by (induction ls) (simp_all add: readline_acc_line)

lemma rewrite_fs2:
  assumes "fs_read fs p = Some c"
  shows "\<exists>fs2. fs_rename (fs_write fs (p @ ''.tmp'') out) (p @ ''.tmp'') p = Inr fs2
           \<and> fs_read fs2 p = Some out \<and> fs_read fs2 (p @ ''.tmp'') = None"
  using assms
  by (auto simp: fs_read_def fs_rename_def fs_write_def fs_create_def Let_def split: option.splits)

lemma edit_task_existing:
  assumes "fs_read fs (file_path fw ident) = Some content"
  shows "fst (edit_task parse stringify decode None fw fs ident obj) = Resolves
       \<and> fs_read (snd (edit_task parse stringify decode None fw fs ident obj)) (file_path fw ident)
           = Some (edit_loop parse stringify obj (readline_lines (decode content)) [])
       \<and> fs_read (snd (edit_task parse stringify decode None fw fs ident obj)) (temp_file fw ident)
           = None"
proof -
  obtain fs2 where
    "fs_rename (fs_write fs (file_path fw ident @ ''.tmp'')
         (edit_loop parse stringify obj (readline_lines (decode content)) []))
       (file_path fw ident @ ''.tmp'') (file_path fw ident) = Inr fs2"
    "fs_read fs2 (file_path fw ident)
       = Some (edit_loop parse stringify obj (readline_lines (decode content)) [])"
    "fs_read fs2 (file_path fw ident @ ''.tmp'') = None"
    using rewrite_fs2 [OF assms] by blast
  with assms show ?thesis
    by (simp add: edit_task_def file_path_def temp_file_def Let_def)
qed

lemma delete_task_existing:
  assumes "fs_read fs (file_path fw ident) = Some content"
  shows "fst (delete_task parse decode None fw fs ident obj) = Resolves
       \<and> fs_read (snd (delete_task parse decode None fw fs ident obj)) (file_path fw ident)
           = Some (delete_loop parse obj (readline_lines (decode content)) [])
       \<and> fs_read (snd (delete_task parse decode None fw fs ident obj)) (temp_file fw ident) = None"
proof -
  obtain fs2 where
    "fs_rename (fs_write fs (file_path fw ident @ ''.tmp'')
         (delete_loop parse obj (readline_lines (decode content)) []))
       (file_path fw ident @ ''.tmp'') (file_path fw ident) = Inr fs2"
    "fs_read fs2 (file_path fw ident)
       = Some (delete_loop parse obj (readline_lines (decode content)) [])"
    "fs_read fs2 (file_path fw ident @ ''.tmp'') = None"
    using rewrite_fs2 [OF assms] by blast
  with assms show ?thesis
    by (simp add: delete_task_def file_path_def temp_file_def Let_def)
qed

text \<open>When the write stream fails, the process ends and the files are as they were.\<close>

lemma task_stream_error:
  assumes "fs_read fs (file_path fw ident) = Some content"
  shows "edit_task parse stringify decode (Some e) fw fs ident obj = (Exits e, fs)"
    and "delete_task parse decode (Some e) fw fs ident obj = (Exits e, fs)"
  using assms by (simp_all add: edit_task_def delete_task_def file_path_def)







subsection \<open>Chunks and the lines of finishTranscript\<close>

lemma split_nl_nonempty: "split_nl s \<noteq> []"
  by (induction s) (auto split: list.splits)

lemma split_nl_append:
  "split_nl (a @ b) = butlast (split_nl a) @ split_nl (last (split_nl a) @ b)"
proof (induction a)
  case Nil
  show ?case by simp
next
  case (Cons c cs)
  obtain x xs where sp: "split_nl cs = x # xs"
    using split_nl_nonempty [of cs] by (cases "split_nl cs") auto
  show ?case
  proof (cases "c = LF")
    case True
    with Cons sp show ?thesis by simp
  next
    case False
    show ?thesis
    proof (cases xs)
      case Nil
      with Cons sp False show ?thesis by simp
    next
      case (Cons y ys)
      with Cons.IH sp False show ?thesis by simp
    qed
  qed
qed

lemma split_nl_no_lf: "LF \<notin> set s \<Longrightarrow> split_nl s = [s]"
  by (induction s) auto

lemma split_nl_line: "LF \<notin> set l \<Longrightarrow> split_nl (l @ LF # rest) = l # split_nl rest"
  by (induction l) auto

lemma parse_lines_append:
  "parse_lines parse (xs @ ys) st =
     (case parse_lines parse xs st of Inl e \<Rightarrow> Inl e | Inr st' \<Rightarrow> parse_lines parse ys st')"
proof (induction xs arbitrary: st)
  case Nil
  show ?case by simp
next
  case (Cons x xs)
  obtain m i where st: "st = (m, i)" by (cases st)
  show ?case using Cons by (simp add: st split: option.splits)
qed

lemma read_chunks_merge:
  "read_chunks parse (c1 # c2 # cs) st = read_chunks parse ((c1 @ c2) # cs) st"
proof -
  obtain b m i where st: "st = (b, m, i)" by (cases st)
  have sp: "split_nl (b @ c1 @ c2) =
      butlast (split_nl (b @ c1)) @ split_nl (last (split_nl (b @ c1)) @ c2)"
    using split_nl_append [of "b @ c1" c2] by simp
  have ne: "split_nl (last (split_nl (b @ c1)) @ c2) \<noteq> []"
    by (rule split_nl_nonempty)
  show ?thesis
    by (simp add: st sp ne butlast_append parse_lines_append split: sum.splits)
qed

lemma read_chunks_concat:
  "read_chunks parse (c # cs) st = read_chunks parse [c @ concat cs] st"
proof (induction cs arbitrary: c)
  case Nil
  show ?case by simp
next
  case (Cons d ds)
  have "read_chunks parse (c # d # ds) st = read_chunks parse ((c @ d) # ds) st"
    by (rule read_chunks_merge)
  also have "\<dots> = read_chunks parse [(c @ d) @ concat ds] st"
    by (rule Cons.IH)
  finally show ?case by simp
qed

lemma concat_chunks_of: "concat (chunks_of n s) = s"
proof (induction n s rule: chunks_of.induct)
  case (1 n s)
  show ?case
  proof (cases "s = [] \<or> n = 0")
    case True
    then show ?thesis by (auto simp: chunks_of.simps [of n s])
  next
    case False
    with 1 show ?thesis by (simp add: chunks_of.simps [of n s])
  qed
qed

lemma read_chunks_whole:
  "read_chunks parse (chunks_of n s) ([], [], 0) = read_chunks parse [s] ([], [], 0)"
proof (cases "chunks_of n s")
  case Nil
  then have "s = []" using concat_chunks_of [of n s] by simp
  then show ?thesis by (simp add: chunks_of.simps [of n "[]"])
next
  case (Cons c cs)
  then have eq: "c @ concat cs = s" using concat_chunks_of [of n s] by simp
  have "read_chunks parse (c # cs) ([], [], 0) = read_chunks parse [c @ concat cs] ([], [], 0)"
    by (rule read_chunks_concat)
  then show ?thesis by (simp only: Cons eq)
qed

lemma parse_lines_error: "parse_lines parse ls st = Inl e \<Longrightarrow> e = SyntaxError"
proof (induction ls arbitrary: st)
  case Nil
  then show ?case by simp
next
  case (Cons x xs)
  obtain m i where st: "st = (m, i)" by (cases st)
  show ?case using Cons by (auto simp: st split: if_splits option.splits)
qed

lemma parse_lines_bad:
  "l \<in> set ls \<Longrightarrow> \<not> is_blank l \<Longrightarrow> parse l = None \<Longrightarrow> parse_lines parse ls st = Inl SyntaxError"
proof (induction ls arbitrary: st)
  case Nil
  then show ?case by simp
next
  case (Cons x xs)
  obtain m i where st: "st = (m, i)" by (cases st)
  show ?case
  proof (cases "parse_lines parse (x # xs) st")
    case (Inl e)
    then show ?thesis using parse_lines_error by blast
  next
    case (Inr r)
    then show ?thesis using Cons by (auto simp: st split: if_splits option.splits)
  qed
qed

subsection \<open>Appending and finishing\<close>

lemma last_dropWhile_append:
  "s \<noteq> [] \<Longrightarrow> \<not> P (hd s) \<Longrightarrow> last (dropWhile P (i @ s)) = last s"
proof (induction i)
  case Nil
  then show ?case by (cases s) auto
next
  case (Cons x xs)
  then show ?case by simp
qed

lemma dropWhile_append_ne:
  "s \<noteq> [] \<Longrightarrow> \<not> P (hd s) \<Longrightarrow> dropWhile P (i @ s) \<noteq> []"
  by (induction i) (auto simp: dropWhile_eq_Nil_conv)

lemma last_path_join:
  assumes "s \<noteq> []" and "hd s \<noteq> CHR ''/''"
  shows "last (path_join a (i @ s)) = last s"
proof -
  let ?d = "dropWhile (\<lambda>c. c = CHR ''/'') (i @ s)"
  have ne: "?d \<noteq> []" using assms by (intro dropWhile_append_ne) auto
  have "path_join a (i @ s) = (a @ ''/'') @ ?d"
    unfolding path_join_def by (simp only: append_assoc)
  then have "last (path_join a (i @ s)) = last ?d"
    using last_appendR [OF ne, of "a @ ''/''"] by (simp only:)
  also have "\<dots> = last s" using assms by (intro last_dropWhile_append) auto
  finally show ?thesis .
qed

lemma active_neq_complete: "active_path cwd ident \<noteq> complete_path cwd' ident'"
proof -
  have "last (active_path cwd ident) = CHR ''l''"
    unfolding active_path_def using last_path_join [of "''.jsonl''"] by simp
  moreover have "last (complete_path cwd' ident') = CHR ''n''"
    unfolding complete_path_def using last_path_join [of "''.json''"] by simp
  ultimately show ?thesis by auto
qed

lemma file_path_default: "file_path (default_FileWriter cwd) ident = active_path cwd ident"
  by (simp add: file_path_def default_FileWriter_def new_FileWriter_def active_path_def)

text \<open>The handle cached for an id is open on the file of its path, which holds \<open>c\<close>.\<close>

lemma append_task_first:
  assumes "fileStates fw ident = None" and "fs_read fs (file_path fw ident) = None"
  shows "baseDir (fst (append_task fw fs ident obj)) = baseDir fw
       \<and> (\<exists>st. fileStates (fst (append_task fw fs ident obj)) ident = Some st
             \<and> names (snd (append_task fw fs ident obj)) (file_path fw ident) = Some (handle st))
       \<and> fs_read (snd (append_task fw fs ident obj)) (file_path fw ident) = Some (obj @ [LF])"
  using assms
  by (simp add: append_task_def getFileHandle_def resetIdleTimer_def fs_open_append_def
      fs_create_def fs_append_def fs_read_def file_path_def Let_def split: option.splits)

lemma append_task_next:
  assumes "fileStates fw ident = Some st"
      and "names fs (file_path fw ident) = Some (handle st)"
      and "fs_read fs (file_path fw ident) = Some c"
  shows "baseDir (fst (append_task fw fs ident obj)) = baseDir fw
       \<and> (\<exists>st'. fileStates (fst (append_task fw fs ident obj)) ident = Some st'
             \<and> names (snd (append_task fw fs ident obj)) (file_path fw ident) = Some (handle st'))
       \<and> fs_read (snd (append_task fw fs ident obj)) (file_path fw ident) = Some (c @ obj @ [LF])"
  using assms
  by (simp add: append_task_def getFileHandle_def resetIdleTimer_def fs_append_def fs_read_def
      file_path_def Let_def split: option.splits)

lemma append_all_next:
  assumes "fileStates fw ident = Some st"
      and "names fs (file_path fw ident) = Some (handle st)"
      and "fs_read fs (file_path fw ident) = Some c"
  shows "fs_read (snd (append_all fw fs ident objs)) (file_path fw ident) = Some (c @ unlines_lf objs)"
  using assms
proof (induction objs arbitrary: fw fs st c)
  case Nil
  then show ?case by (simp add: unlines_lf_def)
next
  case (Cons obj objs)
  obtain fw' fs' where a: "append_task fw fs ident obj = (fw', fs')"
    by (cases "append_task fw fs ident obj")
  from append_task_next [OF Cons.prems, of obj] a
  obtain st' where b: "baseDir fw' = baseDir fw" "fileStates fw' ident = Some st'"
    "names fs' (file_path fw ident) = Some (handle st')"
    "fs_read fs' (file_path fw ident) = Some (c @ obj @ [LF])"
    by auto
  have p: "file_path fw' ident = file_path fw ident"
    using b(1) by (simp add: file_path_def)
  have "fs_read (snd (append_all fw' fs' ident objs)) (file_path fw' ident)
      = Some ((c @ obj @ [LF]) @ unlines_lf objs)"
    by (rule Cons.IH) (use b p in simp_all)
  then show ?case by (simp add: a p unlines_lf_def)
qed

lemma append_all_fresh:
  assumes "fileStates fw ident = None" and "fs_read fs (file_path fw ident) = None"
      and "objs \<noteq> []"
  shows "fs_read (snd (append_all fw fs ident objs)) (file_path fw ident) = Some (unlines_lf objs)"
proof -
  obtain obj rest where o: "objs = obj # rest" using assms(3) by (cases objs) auto
  obtain fw' fs' where a: "append_task fw fs ident obj = (fw', fs')"
    by (cases "append_task fw fs ident obj")
  from append_task_first [OF assms(1,2), of obj] a
  obtain st' where b: "baseDir fw' = baseDir fw" "fileStates fw' ident = Some st'"
    "names fs' (file_path fw ident) = Some (handle st')"
    "fs_read fs' (file_path fw ident) = Some (obj @ [LF])"
    by auto
  have p: "file_path fw' ident = file_path fw ident"
    using b(1) by (simp add: file_path_def)
  have "fs_read (snd (append_all fw' fs' ident rest)) (file_path fw' ident)
      = Some ((obj @ [LF]) @ unlines_lf rest)"
    by (rule append_all_next) (use b p in simp_all)
  then show ?thesis by (simp add: o a p unlines_lf_def)
qed

lemma finish_ok:
  assumes "fs_read fs (active_path cwd ident) = Some content"
      and "parse_lines parse (butlast (split_nl content)) ([], 0) = Inr (msgs, idx)"
      and "finish_buffer parse metadata (last (split_nl content), msgs, idx) = Inr (md', msgs')"
  shows "fst (finishTranscript parse stringify hwm cwd fs ident metadata) = None
       \<and> fs_read (snd (finishTranscript parse stringify hwm cwd fs ident metadata))
             (complete_path cwd ident)
           = Some (stringify (JObj [(''metadata'', md'), (''messages'', JArr msgs')]))
       \<and> fs_read (snd (finishTranscript parse stringify hwm cwd fs ident metadata))
             (active_path cwd ident) = None"
proof -
  have ne: "active_path cwd ident \<noteq> complete_path cwd ident"
    by (rule active_neq_complete)
  from assms(1) obtain i where i: "names fs (active_path cwd ident) = Some i"
    by (auto simp: fs_read_def)
  show ?thesis
    using assms ne i unfolding finishTranscript_def
    by (auto simp: active_path_def [symmetric] complete_path_def [symmetric] read_chunks_whole
        fs_write_def fs_unlink_def fs_create_def fs_read_def Let_def split: option.splits)
qed

lemma split_nl_unlines:
  "\<forall>l\<in>set ls. LF \<notin> set l \<Longrightarrow> split_nl (unlines_lf ls) = ls @ [[]]"
  by (induction ls) (auto simp: unlines_lf_def split_nl_line)

lemma parse_lines_ok:
  "\<forall>l\<in>set ls. \<not> is_blank l \<Longrightarrow> map parse ls = map Some vs \<Longrightarrow>
   parse_lines parse ls (m, i) = Inr (m @ vs, i + length ls)"
proof (induction ls arbitrary: vs m i)
  case Nil
  then show ?case by simp
next
  case (Cons l ls)
  then obtain v vs' where v: "vs = v # vs'" "parse l = Some v" "map parse ls = map Some vs'"
    by (cases vs) auto
  with Cons show ?case by simp
qed

lemma finish_appended:
  assumes "fs_read fs (active_path cwd ident) = Some (unlines_lf ls)"
      and "\<forall>l\<in>set ls. LF \<notin> set l \<and> \<not> is_blank l"
      and "map parse ls = map Some vs"
  shows "fst (finishTranscript parse stringify hwm cwd fs ident metadata) = None
       \<and> fs_read (snd (finishTranscript parse stringify hwm cwd fs ident metadata))
             (complete_path cwd ident)
           = Some (stringify (JObj [(''metadata'', metadata), (''messages'', JArr vs)]))
       \<and> fs_read (snd (finishTranscript parse stringify hwm cwd fs ident metadata))
             (active_path cwd ident) = None"
proof (rule finish_ok [OF assms(1)])
  show "parse_lines parse (butlast (split_nl (unlines_lf ls))) ([], 0) = Inr (vs, length ls)"
    using assms(2,3) by (simp add: split_nl_unlines parse_lines_ok)
  show "finish_buffer parse metadata (last (split_nl (unlines_lf ls)), vs, length ls)
      = Inr (metadata, vs)"
    using assms(2) by (simp add: split_nl_unlines finish_buffer_def is_blank_def trim_def)
qed

lemma fs_read_single: "fs_read (fs_single p c) p = Some c"
  by (simp add: fs_read_def fs_single_def)

lemma fs_read_empty: "fs_read fs_empty p = None"
  by (simp add: fs_read_def fs_empty_def)

lemma fs_read_app_file: "fs_read (app_file c) (file_path app_writer ''s1'') = Some c"
  by (simp add: app_file_def app_writer_def file_path_default fs_read_single)

lemma fileStates_default: "fileStates (default_FileWriter cwd) ident = None"
  by (simp add: default_FileWriter_def new_FileWriter_def)

lemma parse_lines_filter:
  "map parse (filter (\<lambda>x. \<not> is_blank x) ls) = map Some vs \<Longrightarrow>
   parse_lines parse ls (m, i) = Inr (m @ vs, i + length vs)"
proof (induction ls arbitrary: vs m i)
  case Nil
  then show ?case by simp
next
  case (Cons l ls)
  show ?case
  proof (cases "is_blank l")
    case True
    with Cons show ?thesis by simp
  next
    case False
    with Cons.prems obtain v vs' where v: "vs = v # vs'" "parse l = Some v"
        "map parse (filter (\<lambda>x. \<not> is_blank x) ls) = map Some vs'"
      by (cases vs) auto
    show ?thesis using Cons.IH [OF v(3)] False v(1,2) by simp
  qed
qed

lemma finish_general:
  assumes "fs_read fs (active_path cwd ident) = Some content"
      and "map parse (filter (\<lambda>x. \<not> is_blank x) (split_nl content)) = map Some vs"
  shows "fst (finishTranscript parse stringify hwm cwd fs ident metadata) = None
       \<and> fs_read (snd (finishTranscript parse stringify hwm cwd fs ident metadata))
             (complete_path cwd ident)
           = Some (stringify (JObj
               [(''metadata'', if trailing_only content then last vs else metadata),
                (''messages'', JArr (if trailing_only content then [] else vs))]))
       \<and> fs_read (snd (finishTranscript parse stringify hwm cwd fs ident metadata))
             (active_path cwd ident) = None"
proof -
  define ls where "ls = split_nl content"
  have ne: "ls \<noteq> []"
    unfolding ls_def by (rule split_nl_nonempty)
  then have sp: "butlast ls @ [last ls] = ls"
    by simp
  have f: "filter (\<lambda>x. \<not> is_blank x) ls
      = filter (\<lambda>x. \<not> is_blank x) (butlast ls) @ (if is_blank (last ls) then [] else [last ls])"
    using filter_append [of "\<lambda>x. \<not> is_blank x" "butlast ls" "[last ls]"] sp by simp
  have t: "trailing_only content
      = (\<not> is_blank (last ls) \<and> filter (\<lambda>x. \<not> is_blank x) (butlast ls) = [])"
    by (auto simp: trailing_only_def ls_def list_all_iff filter_empty_conv)
  show ?thesis
  proof (cases "is_blank (last ls)")
    case True
    then have "map parse (filter (\<lambda>x. \<not> is_blank x) (butlast ls)) = map Some vs"
      using assms(2) f by (simp add: ls_def)
    then have p: "parse_lines parse (butlast (split_nl content)) ([], 0) = Inr (vs, length vs)"
      using parse_lines_filter [of parse "butlast ls" vs "[]" 0] by (simp add: ls_def)
    have b: "finish_buffer parse metadata (last (split_nl content), vs, length vs)
        = Inr (metadata, vs)"
      using True by (simp add: finish_buffer_def ls_def)
    show ?thesis
      using finish_ok [OF assms(1) p b, of stringify hwm] True t by simp
  next
    case False
    then have m: "map parse (filter (\<lambda>x. \<not> is_blank x) (butlast ls)) @ [parse (last ls)]
        = map Some vs"
      using assms(2) f by (simp add: ls_def)
    then have "vs \<noteq> []"
      by auto
    then have v: "butlast vs @ [last vs] = vs"
      by simp
    have "map Some vs = map Some (butlast vs) @ [Some (last vs)]"
      using arg_cong [OF v, of "map Some"] by simp
    with m have m1: "map parse (filter (\<lambda>x. \<not> is_blank x) (butlast ls)) = map Some (butlast vs)"
      and m2: "parse (last ls) = Some (last vs)"
      by simp_all
    have p: "parse_lines parse (butlast (split_nl content)) ([], 0)
        = Inr (butlast vs, length (butlast vs))"
      using parse_lines_filter [OF m1, of "[]" 0] by (simp add: ls_def)
    have e: "(filter (\<lambda>x. \<not> is_blank x) (butlast ls) = []) = (butlast vs = [])"
      using m1 by (metis map_is_Nil_conv)
    show ?thesis
    proof (cases "butlast vs = []")
      case True
      have b: "finish_buffer parse metadata
          (last (split_nl content), butlast vs, length (butlast vs)) = Inr (last vs, [])"
        using False m2 True by (simp add: finish_buffer_def ls_def)
      show ?thesis
        using finish_ok [OF assms(1) p b, of stringify hwm] False t e True by simp
    next
      case ne: False
      have b: "finish_buffer parse metadata
          (last (split_nl content), butlast vs, length (butlast vs)) = Inr (metadata, vs)"
        using False m2 ne v by (simp add: finish_buffer_def ls_def del: length_butlast)
      show ?thesis
        using finish_ok [OF assms(1) p b, of stringify hwm] False t e ne by simp
    qed
  qed
qed

subsection \<open>The queues\<close>

lemma chain_inv_init: "chain_inv init_queue"
  by (simp add: chain_inv_def chain_links_def chain_tails_def chain_promises_def init_queue_def)

lemma chain_inv_submit:
  assumes "chain_inv s"
  shows "chain_inv (submit s k r)"
proof -
  let ?n = "length (calls s)"
  let ?s' = "submit s k r"
  have L: "chain_links s" and T: "chain_tails s" and P: "chain_promises s"
    using assms by (simp_all add: chain_inv_def)
  have len: "length (calls ?s') = Suc ?n" by (simp add: submit_def Let_def)
  have old: "\<And>j. j < ?n \<Longrightarrow> calls ?s' ! j = calls s ! j"
    by (simp add: submit_def Let_def nth_append)
  have new_id: "c_id (calls ?s' ! ?n) = k" by (simp add: submit_def Let_def)
  have new_last: "c_last (calls ?s' ! ?n) = (case queues s k of None \<Rightarrow> Resolved | Some p \<Rightarrow> Next p)"
    by (simp add: submit_def Let_def)
  have new_p: "c_caught (calls ?s' ! ?n) = Pending" "\<not> c_started (calls ?s' ! ?n)"
    "c_next (calls ?s' ! ?n) = Pending"
    by (simp_all add: submit_def Let_def)
  have q: "queues ?s' = (queues s)(k \<mapsto> ?n)" by (simp add: submit_def Let_def)
  have Tk: "case queues s k of
              None \<Rightarrow> (\<forall>i<?n. c_id (calls s ! i) \<noteq> k)
            | Some p \<Rightarrow> p < ?n \<and> c_id (calls s ! p) = k
                \<and> (\<forall>m. p < m \<and> m < ?n \<longrightarrow> c_id (calls s ! m) \<noteq> k)" for k
    using T by (simp add: chain_tails_def)
  have L': "chain_links ?s'"
    unfolding chain_links_def len
  proof (intro allI impI)
    fix j assume j: "j < Suc ?n"
    show "case c_last (calls ?s' ! j) of
           Resolved \<Rightarrow> (\<forall>i<j. c_id (calls ?s' ! i) \<noteq> c_id (calls ?s' ! j))
         | Next p \<Rightarrow> p < j \<and> c_id (calls ?s' ! p) = c_id (calls ?s' ! j)
             \<and> (\<forall>m. p < m \<and> m < j \<longrightarrow> c_id (calls ?s' ! m) \<noteq> c_id (calls ?s' ! j))"
    proof (cases "j < ?n")
      case True
      then show ?thesis
        using L old by (auto simp: chain_links_def split: source.splits)
    next
      case False
      with j have "j = ?n" by simp
      then show ?thesis
        using Tk [of k] old new_id new_last by (auto split: option.splits)
    qed
  qed
  have T': "chain_tails ?s'"
    unfolding chain_tails_def len q
  proof
    fix k'
    show "case ((queues s)(k \<mapsto> ?n)) k' of
              None \<Rightarrow> (\<forall>i<Suc ?n. c_id (calls ?s' ! i) \<noteq> k')
            | Some p \<Rightarrow> p < Suc ?n \<and> c_id (calls ?s' ! p) = k'
                \<and> (\<forall>m. p < m \<and> m < Suc ?n \<longrightarrow> c_id (calls ?s' ! m) \<noteq> k')"
    proof (cases "k' = k")
      case True
      then show ?thesis using new_id by auto
    next
      case False
      then show ?thesis
        using Tk [of k'] old new_id by (auto simp: less_Suc_eq split: option.splits)
    qed
  qed
  have src: "\<And>j. j < ?n \<Longrightarrow> source_state ?s' (c_last (calls s ! j)) = source_state s (c_last (calls s ! j))"
  proof -
    fix j assume j: "j < ?n"
    show "source_state ?s' (c_last (calls s ! j)) = source_state s (c_last (calls s ! j))"
    proof (cases "c_last (calls s ! j)")
      case Resolved
      then show ?thesis by (simp add: source_state_def)
    next
      case (Next p)
      then have "p < j" using L j by (auto simp: chain_links_def)
      then have "p < ?n" using j by simp
      then show ?thesis using Next old by (simp add: source_state_def)
    qed
  qed
  have P': "chain_promises ?s'"
    unfolding chain_promises_def len
  proof (intro allI impI)
    fix j assume j: "j < Suc ?n"
    show "c_caught (calls ?s' ! j) \<noteq> Rejected
        \<and> (c_caught (calls ?s' ! j) = Fulfilled \<longrightarrow> source_state ?s' (c_last (calls ?s' ! j)) \<noteq> Pending)
        \<and> (c_started (calls ?s' ! j) \<longrightarrow> c_caught (calls ?s' ! j) = Fulfilled)
        \<and> (c_next (calls ?s' ! j) \<noteq> Pending \<longrightarrow> c_started (calls ?s' ! j))"
    proof (cases "j < ?n")
      case True
      then show ?thesis using P old src by (simp add: chain_promises_def)
    next
      case False
      with j have "j = ?n" by simp
      then show ?thesis using new_p by simp
    qed
  qed
  show ?thesis using L' T' P' by (simp add: chain_inv_def)
qed


text \<open>A reaction or a settlement changes one call, and neither its id nor its source.\<close>

lemma chain_inv_update:
  assumes inv: "chain_inv s"
      and j: "j < length (calls s)"
      and c: "c_id c = c_id (calls s ! j)" "c_last c = c_last (calls s ! j)"
      and p: "c_caught c \<noteq> Rejected"
        "c_caught c = Fulfilled \<longrightarrow> source_state s (c_last c) \<noteq> Pending"
        "c_started c \<longrightarrow> c_caught c = Fulfilled"
        "c_next c \<noteq> Pending \<longrightarrow> c_started c"
        "c_next (calls s ! j) \<noteq> Pending \<longrightarrow> c_next c \<noteq> Pending"
  shows "chain_inv (s\<lparr>calls := (calls s)[j := c]\<rparr>)"
proof -
  let ?s' = "s\<lparr>calls := (calls s)[j := c]\<rparr>"
  have L: "chain_links s" and T: "chain_tails s" and P: "chain_promises s"
    using inv by (simp_all add: chain_inv_def)
  have ids: "\<And>i. i < length (calls s) \<Longrightarrow> c_id (calls ?s' ! i) = c_id (calls s ! i)"
    using c(1) j by (auto simp: nth_list_update)
  have lasts: "\<And>i. i < length (calls s) \<Longrightarrow> c_last (calls ?s' ! i) = c_last (calls s ! i)"
    using c(2) j by (auto simp: nth_list_update)
  have L': "chain_links ?s'"
    using L ids lasts unfolding chain_links_def
    by (auto split: source.splits)
  have T': "chain_tails ?s'"
    unfolding chain_tails_def
  proof
    fix k
    have Tk: "case queues s k of
              None \<Rightarrow> (\<forall>i<length (calls s). c_id (calls s ! i) \<noteq> k)
            | Some p \<Rightarrow> p < length (calls s) \<and> c_id (calls s ! p) = k
                \<and> (\<forall>m. p < m \<and> m < length (calls s) \<longrightarrow> c_id (calls s ! m) \<noteq> k)"
      using T by (simp add: chain_tails_def)
    show "case queues ?s' k of
              None \<Rightarrow> (\<forall>i<length (calls ?s'). c_id (calls ?s' ! i) \<noteq> k)
            | Some p \<Rightarrow> p < length (calls ?s') \<and> c_id (calls ?s' ! p) = k
                \<and> (\<forall>m. p < m \<and> m < length (calls ?s') \<longrightarrow> c_id (calls ?s' ! m) \<noteq> k)"
    proof (cases "queues s k")
      case None
      then show ?thesis using Tk ids by simp
    next
      case (Some p)
      then show ?thesis using Tk ids by simp
    qed
  qed
  have src: "\<And>i. i < length (calls s) \<Longrightarrow> source_state s (c_last (calls s ! i)) \<noteq> Pending
      \<Longrightarrow> source_state ?s' (c_last (calls s ! i)) \<noteq> Pending"
  proof -
    fix i assume i: "i < length (calls s)"
      and n: "source_state s (c_last (calls s ! i)) \<noteq> Pending"
    show "source_state ?s' (c_last (calls s ! i)) \<noteq> Pending"
    proof (cases "c_last (calls s ! i)")
      case Resolved
      then show ?thesis by (simp add: source_state_def)
    next
      case (Next q)
      then have "q < i" using L i by (auto simp: chain_links_def)
      then have "q < length (calls s)" using i by simp
      then show ?thesis
        using Next n p(5) j by (cases "q = j") (auto simp: source_state_def nth_list_update)
    qed
  qed
  have P': "chain_promises ?s'"
    unfolding chain_promises_def
  proof (intro allI impI)
    fix i assume "i < length (calls ?s')"
    then have i: "i < length (calls s)" by simp
    show "c_caught (calls ?s' ! i) \<noteq> Rejected
        \<and> (c_caught (calls ?s' ! i) = Fulfilled \<longrightarrow> source_state ?s' (c_last (calls ?s' ! i)) \<noteq> Pending)
        \<and> (c_started (calls ?s' ! i) \<longrightarrow> c_caught (calls ?s' ! i) = Fulfilled)
        \<and> (c_next (calls ?s' ! i) \<noteq> Pending \<longrightarrow> c_started (calls ?s' ! i))"
    proof (cases "i = j")
      case True
      then show ?thesis
        using p c(2) j src [OF j] by (simp add: nth_list_update)
    next
      case False
      then show ?thesis
        using P i src [OF i] by (simp add: chain_promises_def nth_list_update)
    qed
  qed
  show ?thesis using L' T' P' by (simp add: chain_inv_def)
qed

lemma chain_inv_fire:
  assumes inv: "chain_inv s" and f: "fire s e = Some s'"
  shows "chain_inv s'"
proof -
  have P: "\<And>j. j < length (calls s) \<Longrightarrow>
        c_caught (calls s ! j) \<noteq> Rejected
        \<and> (c_caught (calls s ! j) = Fulfilled \<longrightarrow> source_state s (c_last (calls s ! j)) \<noteq> Pending)
        \<and> (c_started (calls s ! j) \<longrightarrow> c_caught (calls s ! j) = Fulfilled)
        \<and> (c_next (calls s ! j) \<noteq> Pending \<longrightarrow> c_started (calls s ! j))"
    using inv by (simp add: chain_inv_def chain_promises_def)
  show ?thesis
  proof (cases e)
    case (Call k r)
    then show ?thesis using inv f chain_inv_submit by (auto split: if_splits)
  next
    case (Catch j)
    with f have j: "j < length (calls s)"
      and a: "c_caught (calls s ! j) = Pending" "source_state s (c_last (calls s ! j)) \<noteq> Pending"
      and s': "s' = s\<lparr>calls := (calls s)[j := (calls s ! j)\<lparr>c_caught := Fulfilled\<rparr>]\<rparr>"
      by (auto split: if_splits)
    show ?thesis
      unfolding s' by (rule chain_inv_update [OF inv j]) (use a P [OF j] in auto)
  next
    case (Then j)
    with f have j: "j < length (calls s)"
      and a: "c_caught (calls s ! j) \<noteq> Pending" "\<not> c_started (calls s ! j)"
        "c_next (calls s ! j) = Pending"
      by (auto split: if_splits)
    have ful: "c_caught (calls s ! j) = Fulfilled"
      using a(1) P [OF j] by (cases "c_caught (calls s ! j)") auto
    with f Then j a have s': "s' = s\<lparr>calls := (calls s)[j := (calls s ! j)\<lparr>c_started := True\<rparr>]\<rparr>"
      by (auto split: if_splits)
    show ?thesis
      unfolding s' by (rule chain_inv_update [OF inv j]) (use a ful P [OF j] in auto)
  next
    case (Settle j ok)
    with f have j: "j < length (calls s)"
      and a: "c_started (calls s ! j)" "c_next (calls s ! j) = Pending"
      and s': "s' = s\<lparr>calls := (calls s)[j := (calls s ! j)\<lparr>c_next := (if ok then Fulfilled else Rejected)\<rparr>]\<rparr>"
      by (auto split: if_splits)
    show ?thesis
      unfolding s' by (rule chain_inv_update [OF inv j]) (use a P [OF j] in auto)
  next
    case (Exit j)
    with f have s': "s' = s\<lparr>alive := False\<rparr>"
      by (auto split: if_splits)
    show ?thesis
      using inv unfolding s'
      by (simp add: chain_inv_def chain_links_def chain_tails_def chain_promises_def
          source_state_def cong: source.case_cong option.case_cong)
  qed
qed

lemma chain_inv_run:
  "chain_inv s \<Longrightarrow> run s es = Some s' \<Longrightarrow> chain_inv s'"
proof (induction es arbitrary: s)
  case Nil
  then show ?case by simp
next
  case (Cons e es)
  then show ?case by (auto split: option.splits dest: chain_inv_fire)
qed

lemma started_after_settled:
  assumes inv: "chain_inv s"
  shows "j < length (calls s) \<Longrightarrow> c_started (calls s ! j) \<Longrightarrow> i < j \<Longrightarrow>
         c_id (calls s ! i) = c_id (calls s ! j) \<Longrightarrow> c_next (calls s ! i) \<noteq> Pending"
proof (induction j arbitrary: i rule: less_induct)
  case (less j)
  have L: "chain_links s" and P: "chain_promises s"
    using inv by (simp_all add: chain_inv_def)
  have f: "c_caught (calls s ! j) = Fulfilled"
    using P less.prems(1,2) by (simp add: chain_promises_def)
  then have src: "source_state s (c_last (calls s ! j)) \<noteq> Pending"
    using P less.prems(1) by (simp add: chain_promises_def)
  show ?case
  proof (cases "c_last (calls s ! j)")
    case Resolved
    then show ?thesis using L less.prems by (auto simp: chain_links_def)
  next
    case (Next p)
    then have p: "p < j" "c_id (calls s ! p) = c_id (calls s ! j)"
      "\<forall>m. p < m \<and> m < j \<longrightarrow> c_id (calls s ! m) \<noteq> c_id (calls s ! j)"
      using L less.prems(1) by (auto simp: chain_links_def)
    have np: "c_next (calls s ! p) \<noteq> Pending"
      using src Next by (simp add: source_state_def)
    have pl: "p < length (calls s)" using p(1) less.prems(1) by simp
    then have sp: "c_started (calls s ! p)"
      using P np by (simp add: chain_promises_def)
    have "i \<le> p" using p(3) less.prems(3,4) by (meson not_le_imp_less)
    show ?thesis
    proof (cases "i = p")
      case True
      then show ?thesis using np by simp
    next
      case False
      then have "i < p" using \<open>i \<le> p\<close> by simp
      then show ?thesis
        using less.IH [OF p(1) pl sp, of i] less.prems(4) p(2) by simp
    qed
  qed
qed


lemma fire_submitted:
  "fire s e = Some s' \<Longrightarrow>
   map (\<lambda>c. (c_id c, c_request c)) (calls s')
     = map (\<lambda>c. (c_id c, c_request c)) (calls s) @ submitted [e]"
proof (cases e)
  case (Call k r)
  assume "fire s e = Some s'"
  with Call show ?thesis by (auto simp: submit_def Let_def split: if_splits)
next
  case (Catch j)
  assume "fire s e = Some s'"
  with Catch show ?thesis by (auto split: if_splits simp: map_update list_update_same_conv)
next
  case (Then j)
  assume "fire s e = Some s'"
  with Then show ?thesis by (auto split: if_splits simp: map_update list_update_same_conv)
next
  case (Settle j ok)
  assume "fire s e = Some s'"
  with Settle show ?thesis by (auto split: if_splits simp: map_update list_update_same_conv)
next
  case (Exit j)
  assume "fire s e = Some s'"
  with Exit show ?thesis by (auto split: if_splits)
qed

lemma submitted_Cons: "submitted (e # es) = submitted [e] @ submitted es"
  by (cases e) simp_all

lemma run_submitted:
  "run s es = Some s' \<Longrightarrow>
   map (\<lambda>c. (c_id c, c_request c)) (calls s')
     = map (\<lambda>c. (c_id c, c_request c)) (calls s) @ submitted es"
proof (induction es arbitrary: s)
  case Nil
  then show ?case by simp
next
  case (Cons e es)
  then obtain s1 where s1: "fire s e = Some s1" "run s1 es = Some s'"
    by (auto split: option.splits)
  show ?case
    using Cons.IH [OF s1(2)] fire_submitted [OF s1(1)] submitted_Cons [of e es] by simp
qed

lemma then_starts:
  assumes "chain_inv s" and "fire s (Then j) = Some s'"
  shows "c_started (calls s' ! j)"
proof -
  from assms(2) have j: "j < length (calls s)" and a: "c_caught (calls s ! j) \<noteq> Pending"
    by (auto split: if_splits)
  have "c_caught (calls s ! j) \<noteq> Rejected"
    using assms(1) j by (simp add: chain_inv_def chain_promises_def)
  with a have "c_caught (calls s ! j) = Fulfilled"
    by (cases "c_caught (calls s ! j)") auto
  with assms(2) j show ?thesis by (auto split: if_splits)
qed

lemma next_can_start:
  assumes inv: "chain_inv s"
      and al: "alive s"
      and j: "j < length (calls s)"
      and ns: "\<not> c_started (calls s ! j)"
      and prev: "\<forall>i<j. c_id (calls s ! i) = c_id (calls s ! j) \<longrightarrow> c_next (calls s ! i) \<noteq> Pending"
  shows "\<exists>s'. (run s [Catch j, Then j] = Some s' \<or> run s [Then j] = Some s')
           \<and> c_started (calls s' ! j)"
proof -
  have P: "c_caught (calls s ! j) \<noteq> Rejected" "c_next (calls s ! j) \<noteq> Pending \<longrightarrow> c_started (calls s ! j)"
    using inv j by (simp_all add: chain_inv_def chain_promises_def)
  have np: "c_next (calls s ! j) = Pending" using P(2) ns by auto
  have src: "source_state s (c_last (calls s ! j)) \<noteq> Pending"
  proof (cases "c_last (calls s ! j)")
    case Resolved
    then show ?thesis by (simp add: source_state_def)
  next
    case (Next p)
    then have "p < j" "c_id (calls s ! p) = c_id (calls s ! j)"
      using inv j by (auto simp: chain_inv_def chain_links_def)
    then show ?thesis using prev Next by (simp add: source_state_def)
  qed
  show ?thesis
  proof (cases "c_caught (calls s ! j)")
    case Pending
    then show ?thesis using al j ns np src by (auto simp: nth_list_update)
  next
    case Fulfilled
    then show ?thesis using al j ns np by (auto simp: nth_list_update)
  next
    case Rejected
    then show ?thesis using P(1) by simp
  qed
qed

text \<open>
  The order of the chain. In every state that the steps can lead to, the calls are
  recorded in the order of submission; a task that has started has every earlier task of
  the same id settled; the reaction of \<^verbatim>\<open>then\<close> always starts its task, since the promise
  of \<^verbatim>\<open>catch\<close> is never rejected; and while the process is running, a task whose earlier
  tasks of the same id have settled, fulfilled or rejected, can be started.
\<close>

lemma queue_order:
  assumes "run init_queue evs = Some s"
  shows "map (\<lambda>c. (c_id c, c_request c)) (calls s) = submitted evs
       \<and> (\<forall>i j. i < j \<and> j < length (calls s) \<and> c_id (calls s ! i) = c_id (calls s ! j)
              \<and> c_started (calls s ! j) \<longrightarrow> c_next (calls s ! i) \<noteq> Pending)
       \<and> (\<forall>j s'. fire s (Then j) = Some s' \<longrightarrow> c_started (calls s' ! j))
       \<and> (\<forall>j. alive s \<and> j < length (calls s) \<and> \<not> c_started (calls s ! j)
              \<and> (\<forall>i<j. c_id (calls s ! i) = c_id (calls s ! j) \<longrightarrow> c_next (calls s ! i) \<noteq> Pending)
            \<longrightarrow> (\<exists>s'. (run s [Catch j, Then j] = Some s' \<or> run s [Then j] = Some s')
                   \<and> c_started (calls s' ! j)))"
proof -
  have inv: "chain_inv s"
    using chain_inv_run [OF chain_inv_init assms] .
  have "map (\<lambda>c. (c_id c, c_request c)) (calls s) = submitted evs"
    using run_submitted [OF assms] by (simp add: init_queue_def)
  moreover have "\<forall>i j. i < j \<and> j < length (calls s) \<and> c_id (calls s ! i) = c_id (calls s ! j)
              \<and> c_started (calls s ! j) \<longrightarrow> c_next (calls s ! i) \<noteq> Pending"
    using started_after_settled [OF inv] by blast
  moreover have "\<forall>j s'. fire s (Then j) = Some s' \<longrightarrow> c_started (calls s' ! j)"
    using then_starts [OF inv] by blast
  moreover have "\<forall>j. alive s \<and> j < length (calls s) \<and> \<not> c_started (calls s ! j)
              \<and> (\<forall>i<j. c_id (calls s ! i) = c_id (calls s ! j) \<longrightarrow> c_next (calls s ! i) \<noteq> Pending)
            \<longrightarrow> (\<exists>s'. (run s [Catch j, Then j] = Some s' \<or> run s [Then j] = Some s')
                   \<and> c_started (calls s' ! j))"
    using next_can_start [OF inv] by blast
  ultimately show ?thesis by blast
qed

lemma dead_fire: "\<not> alive s \<Longrightarrow> fire s ev = None"
  by (cases ev) simp_all

subsection \<open>The handles\<close>

lemma resetIdleTimer_other:
  "fileStates (resetIdleTimer fw ident st) k
     = (if k = ident then Some (st\<lparr>timer := Some (next_timer fw)\<rparr>) else fileStates fw k)"
  by (simp add: resetIdleTimer_def Let_def)

lemma opening_inv_hfire:
  assumes "opening_inv s" and "hfire s e = Some s'"
  shows "opening_inv s'"
proof (cases e)
  case (GetHandle k)
  with assms(2) have k: "k \<notin> set (awaiting_open s)" and s': "s' = getFileHandle_call s k"
    by (auto split: if_splits)
  show ?thesis
  proof (cases "fileStates (writer s) k")
    case None
    then show ?thesis using assms(1) k by (auto simp: s' getFileHandle_call_def opening_inv_def)
  next
    case (Some st)
    then show ?thesis
      using assms(1) k
      by (auto simp: s' getFileHandle_call_def opening_inv_def resetIdleTimer_other)
  qed
next
  case (OpenDone k)
  with assms(2) have s': "s' = getFileHandle_opened s k"
    by (auto split: if_splits)
  show ?thesis
    using assms(1)
    by (auto simp: s' getFileHandle_opened_def opening_inv_def Let_def resetIdleTimer_other)
next
  case (TimerFires t)
  with assms(2) obtain k where
    s': "s' = closeFile_call (s\<lparr>writer := (writer s)\<lparr>timers := (timers (writer s))(t := None)\<rparr>\<rparr>) k"
    by (auto split: option.splits)
  show ?thesis
    using assms(1) by (auto simp: s' closeFile_call_def opening_inv_def split: option.splits)
next
  case (CloseDone h)
  with assms(2) obtain c where s': "s' = closeFile_closed s c"
    by (auto split: option.splits)
  show ?thesis
    using assms(1) by (auto simp: s' closeFile_closed_def opening_inv_def)
qed

lemma opening_inv_hrun:
  "opening_inv s \<Longrightarrow> hrun s es = Some s' \<Longrightarrow> opening_inv s'"
proof (induction es arbitrary: s)
  case Nil
  then show ?case by simp
next
  case (Cons e es)
  then show ?case by (auto split: option.splits dest: opening_inv_hfire)
qed

lemma opening_inv_init: "opening_inv (init_handles fw)"
  by (simp add: opening_inv_def init_handles_def)

section \<open>Properties of the queues\<close>

text \<open>
  C1. The claim: the operations of a key run in the order of submission, one after the
  other, and a failure of one does not block the chain. The chain keeps the order, and a
  task that rejects does not stop it (\<open>queue_order\<close>). But the task of an \<^verbatim>\<open>edit\<close> or a
  \<^verbatim>\<open>delete\<close> whose write stream fails does not reject: the \<^verbatim>\<open>'error'\<close> event has no
  listener, and the process ends. Take any state that the steps can lead to in which such
  a task of call \<open>i\<close> has started on an existing file, and any later call \<open>j\<close> for the
  same id. The failure is the step \<open>Exit i\<close>; after it the promise of call \<open>i\<close> is pending
  for ever, the task of call \<open>j\<close> has not started, and no step can happen any more.
\<close>

theorem stream_error_ends_chain:
  assumes "run init_queue evs = Some s"
      and "i < j" and "j < length (calls s)"
      and "c_id (calls s ! i) = c_id (calls s ! j)"
      and "alive s"
      and "c_started (calls s ! i)" and "c_next (calls s ! i) = Pending"
      and "uses_streams (c_request (calls s ! i))"
      and "fs_read fs (file_path fw (c_id (calls s ! i))) = Some content"
  shows "ends_with i (fst (edit_task parse stringify decode (Some e) fw fs (c_id (calls s ! i)) obj))
           = (Exit i :: 'n event)
       \<and> ends_with i (fst (delete_task parse decode (Some e) fw fs (c_id (calls s ! i)) obj))
           = (Exit i :: 'n event)
       \<and> (\<exists>s'. fire s (Exit i) = Some s'
              \<and> c_next (calls s' ! i) = Pending
              \<and> \<not> c_started (calls s' ! j)
              \<and> (\<forall>ev. fire s' ev = None))"
proof -
  have inv: "chain_inv s"
    using chain_inv_run [OF chain_inv_init assms(1)] .
  have nj: "\<not> c_started (calls s ! j)"
    using started_after_settled [OF inv assms(3) _ assms(2) assms(4)] assms(7) by blast
  have il: "i < length (calls s)"
    using assms(2,3) by simp
  have f: "fire s (Exit i) = Some (s\<lparr>alive := False\<rparr>)"
    using il assms(5,6,7,8) by simp
  have d: "\<forall>ev. fire (s\<lparr>alive := False\<rparr>) ev = None"
    by (simp add: dead_fire)
  have e: "ends_with i (fst (edit_task parse stringify decode (Some e) fw fs (c_id (calls s ! i)) obj))
           = (Exit i :: 'n event)"
      "ends_with i (fst (delete_task parse decode (Some e) fw fs (c_id (calls s ! i)) obj))
           = (Exit i :: 'n event)"
    by (simp_all add: task_stream_error [OF assms(9)] ends_with_def)
  show ?thesis
    using e f d nj assms(7) by simp
qed

theorem stream_error_ends_chain_witness:
  "run init_queue edit_then_append = Some (the (run init_queue edit_then_append))
   \<and> (0::nat) < 1
   \<and> 1 < length (calls (the (run init_queue edit_then_append)))
   \<and> c_id (calls (the (run init_queue edit_then_append)) ! 0)
       = c_id (calls (the (run init_queue edit_then_append)) ! 1)
   \<and> alive (the (run init_queue edit_then_append))
   \<and> c_started (calls (the (run init_queue edit_then_append)) ! 0)
   \<and> c_next (calls (the (run init_queue edit_then_append)) ! 0) = Pending
   \<and> c_request (calls (the (run init_queue edit_then_append)) ! 0) = EditReq target_1
   \<and> c_request (calls (the (run init_queue edit_then_append)) ! 1) = AppendReq ''{\"id\":3}''
   \<and> fs_read (app_file (unlines_lf lines_with_gap)) (file_path app_writer ''s1'')
       = Some (unlines_lf lines_with_gap)
   \<and> edit_task json_parse json_stringify utf8_decode (Some EACCES) app_writer
         (app_file (unlines_lf lines_with_gap)) ''s1'' target_1
       = (Exits EACCES, app_file (unlines_lf lines_with_gap))
   \<and> fire (the (run init_queue edit_then_append)) (Exit 0) \<noteq> None
   \<and> c_next (calls (the (fire (the (run init_queue edit_then_append)) (Exit 0))) ! 0) = Pending
   \<and> \<not> c_started (calls (the (fire (the (run init_queue edit_then_append)) (Exit 0))) ! 1)
   \<and> fire (the (fire (the (run init_queue edit_then_append)) (Exit 0))) (Catch 1) = None
   \<and> fire (the (fire (the (run init_queue edit_then_append)) (Exit 0))) (Then 1) = None
   \<and> fire (the (fire (the (run init_queue edit_then_append)) (Exit 0))) (Settle 0 False) = None"
proof -
  let ?s = "the (run init_queue edit_then_append)"
  have "run init_queue edit_then_append \<noteq> None"
    by code_simp
  then have r: "run init_queue edit_then_append = Some ?s"
    by simp
  have h: "(0::nat) < 1" "1 < length (calls ?s)"
      "c_id (calls ?s ! 0) = c_id (calls ?s ! 1)"
      "alive ?s" "c_started (calls ?s ! 0)" "c_next (calls ?s ! 0) = Pending"
    by code_simp+
  have q: "c_request (calls ?s ! 0) = EditReq target_1"
      "c_request (calls ?s ! 1) = AppendReq ''{\"id\":3}''"
    by code_simp+
  have u: "uses_streams (c_request (calls ?s ! 0))"
    by (simp add: q)
  have i: "c_id (calls ?s ! 0) = ''s1''"
    by code_simp
  have g0: "fs_read (app_file (unlines_lf lines_with_gap)) (file_path app_writer ''s1'')
       = Some (unlines_lf lines_with_gap)"
    by (rule fs_read_app_file)
  have g: "fs_read (app_file (unlines_lf lines_with_gap)) (file_path app_writer (c_id (calls ?s ! 0)))
       = Some (unlines_lf lines_with_gap)"
    unfolding i by (rule g0)
  have t: "edit_task json_parse json_stringify utf8_decode (Some EACCES) app_writer
         (app_file (unlines_lf lines_with_gap)) ''s1'' target_1
       = (Exits EACCES, app_file (unlines_lf lines_with_gap))"
    using g0 by (simp add: edit_task_def file_path_def)
  from stream_error_ends_chain
    [where parse = json_parse and stringify = json_stringify and decode = utf8_decode
       and e = EACCES and obj = target_1,
      OF r h(1) h(2) h(3) h(4) h(5) h(6) u g]
  obtain s' where s': "fire ?s (Exit 0) = Some s'" "c_next (calls s' ! 0) = Pending"
      "\<not> c_started (calls s' ! 1)" "\<forall>ev. fire s' ev = None"
    by blast
  have x: "the (fire ?s (Exit 0)) = s'" "fire ?s (Exit 0) \<noteq> None"
    using s'(1) by simp_all
  have a: "c_next (calls (the (fire ?s (Exit 0))) ! 0) = Pending
      \<and> \<not> c_started (calls (the (fire ?s (Exit 0))) ! 1)
      \<and> fire (the (fire ?s (Exit 0))) (Catch 1) = None
      \<and> fire (the (fire ?s (Exit 0))) (Then 1) = None
      \<and> fire (the (fire ?s (Exit 0))) (Settle 0 False) = None"
    unfolding x(1) using s'(2,3,4) by blast
  from r h q g0 t x(2) a show ?thesis
    by blast
qed

section \<open>Properties of the handle cache\<close>

text \<open>
  C9. The claim: at every instant an id has at most one open handle; a handle is opened
  only when the cache has no entry for the id; and when the idle timer fires the handle
  is closed and its entry removed before the file is opened again. In every state that
  the steps can lead to from a new writer, \<^verbatim>\<open>fs.open\<close> resolves for an id only when the
  cache has no entry for it. But \<^verbatim>\<open>closeFile\<close> does not clear the timer of the state,
  and after its await it deletes whatever entry the id has then. After the steps of
  \<open>stale_timer_schedule\<close> the first two handles are closed, and the third and the
  fourth are both open on the file of the one id; the cache holds the fourth, and
  nothing will close the third.
\<close>

theorem stale_timer_two_handles:
  assumes "hrun (init_handles (new_FileWriter cwd dir idle)) evs = Some s"
      and "hfire s (OpenDone k) = Some s'"
  shows "fileStates (writer s) k = None
       \<and> descriptors s' = descriptors s @ [(k, Open)]
       \<and> hrun (init_handles app_writer) stale_timer_schedule \<noteq> None
       \<and> map snd (descriptors (the (hrun (init_handles app_writer) stale_timer_schedule)))
           = [Closed, Closed, Open, Open]
       \<and> open_handles (the (hrun (init_handles app_writer) stale_timer_schedule)) ''s1'' = [2, 3]
       \<and> map_option handle
             (fileStates (writer (the (hrun (init_handles app_writer) stale_timer_schedule))) ''s1'')
           = Some 3"
proof -
  have inv: "opening_inv s"
    using opening_inv_hrun [OF opening_inv_init assms(1)] .
  have k: "k \<in> set (awaiting_open s)" and s': "s' = getFileHandle_opened s k"
    using assms(2) by (auto split: if_splits)
  have a: "fileStates (writer s) k = None"
    using inv k by (simp add: opening_inv_def)
  have b: "descriptors s' = descriptors s @ [(k, Open)]"
    by (simp add: s' getFileHandle_opened_def Let_def)
  have c: "hrun (init_handles app_writer) stale_timer_schedule \<noteq> None"
    by code_simp
  have d: "map snd (descriptors (the (hrun (init_handles app_writer) stale_timer_schedule)))
      = [Closed, Closed, Open, Open]"
    by code_simp
  have e: "open_handles (the (hrun (init_handles app_writer) stale_timer_schedule)) ''s1'' = [2, 3]"
    by code_simp
  have f: "map_option handle
        (fileStates (writer (the (hrun (init_handles app_writer) stale_timer_schedule))) ''s1'')
      = Some 3"
    by code_simp
  from a b c d e f show ?thesis by blast
qed

theorem stale_timer_two_handles_witness:
  "hrun (init_handles (new_FileWriter ''/app'' ''/transcripts/active'' 5000)) second_open_schedule
     = Some (the (hrun (init_handles (new_FileWriter ''/app'' ''/transcripts/active'' 5000))
          second_open_schedule))
   \<and> hfire (the (hrun (init_handles (new_FileWriter ''/app'' ''/transcripts/active'' 5000))
          second_open_schedule)) (OpenDone ''s1'')
     = Some (the (hfire (the (hrun (init_handles (new_FileWriter ''/app'' ''/transcripts/active'' 5000))
          second_open_schedule)) (OpenDone ''s1'')))
   \<and> map snd (descriptors (the (hrun (init_handles (new_FileWriter ''/app'' ''/transcripts/active'' 5000))
          second_open_schedule))) = [Closed]
   \<and> fileStates (writer (the (hrun (init_handles (new_FileWriter ''/app'' ''/transcripts/active'' 5000))
          second_open_schedule))) ''s1'' = None
   \<and> descriptors (the (hfire (the (hrun (init_handles (new_FileWriter ''/app'' ''/transcripts/active'' 5000))
          second_open_schedule)) (OpenDone ''s1'')))
     = [(''s1'', Closed), (''s1'', Open)]"
proof -
  let ?s = "the (hrun (init_handles (new_FileWriter ''/app'' ''/transcripts/active'' 5000))
      second_open_schedule)"
  have "hrun (init_handles (new_FileWriter ''/app'' ''/transcripts/active'' 5000))
      second_open_schedule \<noteq> None"
    by code_simp
  then have r: "hrun (init_handles (new_FileWriter ''/app'' ''/transcripts/active'' 5000))
      second_open_schedule = Some ?s"
    by simp
  have "hfire ?s (OpenDone ''s1'') \<noteq> None"
    by code_simp
  then have o: "hfire ?s (OpenDone ''s1'') = Some (the (hfire ?s (OpenDone ''s1'')))"
    by simp
  have d: "descriptors ?s = [(''s1'', Closed)]"
    by code_simp
  have m: "map snd (descriptors ?s) = [Closed]"
    by (simp add: d)
  from stale_timer_two_handles [OF r o]
  have "fileStates (writer ?s) ''s1'' = None
      \<and> descriptors (the (hfire ?s (OpenDone ''s1''))) = descriptors ?s @ [(''s1'', Open)]"
    by blast
  then have "fileStates (writer ?s) ''s1'' = None
      \<and> descriptors (the (hfire ?s (OpenDone ''s1''))) = [(''s1'', Closed), (''s1'', Open)]"
    by (simp add: d)
  with r o m show ?thesis by blast
qed

section \<open>Properties of the rewrite operations\<close>

text \<open>
  C3, as the code has it. The claim: for every existing active file and every target that
  matches no line, \<^verbatim>\<open>edit\<close> and \<^verbatim>\<open>delete\<close> leave the content byte-identical, blank lines
  included. The file is read as UTF-8 text, the loops write a whitespace-only line back as
  an empty line, and they end every line with a line feed. So this holds for the files
  that are well-formed UTF-8 (the decoder returns them as they are) and whose lines all
  end with a line feed, hold no other line terminator (carriage return, U+2028, U+2029),
  and are empty whenever they are blank: the active file of such a file holds the same
  bytes afterwards, also when the write stream fails, and when it does not fail the
  operations resolve and the temporary file is gone.
\<close>

theorem rewrite_no_match_identity:
  assumes "fs_read fs (file_path fw ident) = Some (unlines_lf ls)"
      and "decode (unlines_lf ls) = unlines_lf ls"
      and "\<forall>l\<in>set ls. \<not> has_terminator l \<and> (is_blank l \<longrightarrow> l = [])"
      and "\<forall>l\<in>set ls. \<not> line_matches parse obj l"
  shows "fs_read (snd (edit_task parse stringify decode werr fw fs ident obj)) (file_path fw ident)
           = Some (unlines_lf ls)
       \<and> fs_read (snd (delete_task parse decode werr fw fs ident obj)) (file_path fw ident)
           = Some (unlines_lf ls)
       \<and> fst (edit_task parse stringify decode None fw fs ident obj) = Resolves
       \<and> fs_read (snd (edit_task parse stringify decode None fw fs ident obj)) (temp_file fw ident)
           = None
       \<and> fst (delete_task parse decode None fw fs ident obj) = Resolves
       \<and> fs_read (snd (delete_task parse decode None fw fs ident obj)) (temp_file fw ident) = None"
proof -
  have rl: "readline_lines (decode (unlines_lf ls)) = ls"
    using assms(2,3) by (simp add: readline_unlines)
  have cp: "map copied ls = ls"
    using assms(3) by (induction ls) (auto simp: copied_def)
  have e: "map (\<lambda>l. if line_matches parse obj l then stringify obj else copied l) ls = ls"
    using assms(3,4) by (induction ls) (auto simp: copied_def)
  have d: "filter (\<lambda>l. \<not> line_matches parse obj l) ls = ls"
    using assms(4) by (induction ls) auto
  have n: "fst (edit_task parse stringify decode None fw fs ident obj) = Resolves
       \<and> fs_read (snd (edit_task parse stringify decode None fw fs ident obj)) (file_path fw ident)
           = Some (unlines_lf ls)
       \<and> fs_read (snd (edit_task parse stringify decode None fw fs ident obj)) (temp_file fw ident)
           = None
       \<and> fst (delete_task parse decode None fw fs ident obj) = Resolves
       \<and> fs_read (snd (delete_task parse decode None fw fs ident obj)) (file_path fw ident)
           = Some (unlines_lf ls)
       \<and> fs_read (snd (delete_task parse decode None fw fs ident obj)) (temp_file fw ident) = None"
    using edit_task_existing [OF assms(1), of parse stringify decode obj]
      delete_task_existing [OF assms(1), of parse decode obj]
    by (simp add: edit_loop_eq delete_loop_eq rl cp e d)
  have w: "fs_read (snd (edit_task parse stringify decode werr fw fs ident obj)) (file_path fw ident)
           = Some (unlines_lf ls)
       \<and> fs_read (snd (delete_task parse decode werr fw fs ident obj)) (file_path fw ident)
           = Some (unlines_lf ls)"
  proof (cases werr)
    case None
    then show ?thesis using n by simp
  next
    case (Some e)
    then show ?thesis by (simp add: task_stream_error [OF assms(1)] assms(1))
  qed
  from n w show ?thesis by blast
qed

theorem rewrite_no_match_identity_witness:
  "fs_read (app_file (unlines_lf lines_with_gap)) (file_path app_writer ''s1'')
     = Some (unlines_lf lines_with_gap)
   \<and> utf8_decode (unlines_lf lines_with_gap) = unlines_lf lines_with_gap
   \<and> list_all (\<lambda>l. \<not> has_terminator l \<and> (is_blank l \<longrightarrow> l = [])) lines_with_gap
   \<and> list_all (\<lambda>l. \<not> line_matches json_parse (JObj [(''id'', JNum 9)]) l) lines_with_gap
   \<and> fs_read (snd (edit_task json_parse json_stringify utf8_decode None app_writer
         (app_file (unlines_lf lines_with_gap)) ''s1'' (JObj [(''id'', JNum 9)])))
       (file_path app_writer ''s1'')
     = Some (unlines_lf lines_with_gap)
   \<and> fs_read (snd (delete_task json_parse utf8_decode None app_writer
         (app_file (unlines_lf lines_with_gap)) ''s1'' (JObj [(''id'', JNum 9)])))
       (file_path app_writer ''s1'')
     = Some (unlines_lf lines_with_gap)
   \<and> fs_read (snd (edit_task json_parse json_stringify utf8_decode (Some EACCES) app_writer
         (app_file (unlines_lf lines_with_gap)) ''s1'' (JObj [(''id'', JNum 9)])))
       (file_path app_writer ''s1'')
     = Some (unlines_lf lines_with_gap)
   \<and> fst (edit_task json_parse json_stringify utf8_decode None app_writer
         (app_file (unlines_lf lines_with_gap)) ''s1'' (JObj [(''id'', JNum 9)])) = Resolves
   \<and> fst (delete_task json_parse utf8_decode None app_writer
         (app_file (unlines_lf lines_with_gap)) ''s1'' (JObj [(''id'', JNum 9)])) = Resolves"
proof -
  have h1: "fs_read (app_file (unlines_lf lines_with_gap)) (file_path app_writer ''s1'')
     = Some (unlines_lf lines_with_gap)"
    by (rule fs_read_app_file)
  have h2: "utf8_decode (unlines_lf lines_with_gap) = unlines_lf lines_with_gap"
    by code_simp
  have h3: "\<forall>l\<in>set lines_with_gap. \<not> has_terminator l \<and> (is_blank l \<longrightarrow> l = [])"
    by code_simp
  have h4: "\<forall>l\<in>set lines_with_gap. \<not> line_matches json_parse (JObj [(''id'', JNum 9)]) l"
    by code_simp
  show ?thesis
    using rewrite_no_match_identity
        [where parse = json_parse and stringify = json_stringify and decode = utf8_decode
           and werr = None, OF h1 h2 h3 h4]
      rewrite_no_match_identity
        [where parse = json_parse and stringify = json_stringify and decode = utf8_decode
           and werr = "Some EACCES", OF h1 h2 h3 h4]
      h1 h2 h3 h4
    unfolding list_all_iff by blast
qed

text \<open>
  A file whose only line holds two spaces: the target matches no line, and both
  operations leave a file that holds an empty line.
\<close>

theorem rewrite_no_match_counterexample:
  "filter (line_matches json_parse (JObj [(''id'', JNum 1)]))
       (readline_lines (utf8_decode (''  '' @ [LF]))) = []
   \<and> fs_read (app_file (''  '' @ [LF])) (file_path app_writer ''s1'') = Some (''  '' @ [LF])
   \<and> fs_read (snd (edit_task json_parse json_stringify utf8_decode None app_writer
         (app_file (''  '' @ [LF])) ''s1'' (JObj [(''id'', JNum 1)])))
       (file_path app_writer ''s1'') = Some [LF]
   \<and> fs_read (snd (delete_task json_parse utf8_decode None app_writer
         (app_file (''  '' @ [LF])) ''s1'' (JObj [(''id'', JNum 1)])))
       (file_path app_writer ''s1'') = Some [LF]
   \<and> [LF] \<noteq> ''  '' @ [LF]"
  by code_simp




text \<open>
  C7: when the active file of an id does not exist, the tasks of \<^verbatim>\<open>edit\<close> and
  \<^verbatim>\<open>delete\<close> resolve and leave the file system as it was: no file is created, neither
  the active file nor a temporary one.
\<close>

theorem rewrite_missing_file:
  assumes "fs_read fs (file_path fw ident) = None"
  shows "edit_task parse stringify decode werr fw fs ident obj = (Resolves, fs)
       \<and> delete_task parse decode werr fw fs ident obj = (Resolves, fs)"
  using assms by (simp add: edit_task_def delete_task_def file_path_def)

theorem rewrite_missing_file_witness:
  "fs_read fs_empty (file_path app_writer ''s1'') = None
   \<and> edit_task json_parse json_stringify utf8_decode None app_writer fs_empty ''s1''
         (JObj [(''id'', JNum 1)])
       = (Resolves, fs_empty)
   \<and> delete_task json_parse utf8_decode None app_writer fs_empty ''s1'' (JObj [(''id'', JNum 1)])
       = (Resolves, fs_empty)
   \<and> fs_read fs_empty (temp_file app_writer ''s1'') = None"
proof -
  have h: "fs_read fs_empty (file_path app_writer ''s1'') = None"
    by (rule fs_read_empty)
  show ?thesis
    using rewrite_missing_file
      [where parse = json_parse and stringify = json_stringify and decode = utf8_decode
         and werr = None and obj = "JObj [(''id'', JNum 1)]", OF h] h
    by (simp add: fs_read_empty)
qed







section \<open>Properties of finishTranscript\<close>

text \<open>
  C2, as the code has it. The claim: after one append of a record and
  \<^verbatim>\<open>finishTranscript\<close>, the record is the metadata of the document, and there is no
  message. A record that \<^verbatim>\<open>append\<close> wrote ends with a line feed, and every non-blank
  line that ends with a line feed is a message: after one append the document holds the
  caller's metadata and the record as its only message. In general, for a file whose
  non-blank lines all parse: when the text after the last line feed is not blank and
  every line before it is blank, that text is the metadata and there is no message; in
  every other case the metadata is the caller's and the messages are all the non-blank
  lines, in their order, the text after the last line feed included.
\<close>

theorem finalize_single_record:
  assumes "fs_read fs (active_path cwd ident) = None"
      and "parse l = Some a"
      and "LF \<notin> set l"
      and "\<not> is_blank l"
      and "fs_read fs' (active_path cwd ident) = Some content"
      and "map parse (filter (\<lambda>x. \<not> is_blank x) (split_nl content)) = map Some vs"
  shows "fs_read (snd (finishTranscript parse stringify hwm cwd
               (snd (append_all (default_FileWriter cwd) fs ident [l])) ident metadata))
             (complete_path cwd ident)
           = Some (stringify (JObj [(''metadata'', metadata), (''messages'', JArr [a])]))
       \<and> fs_read (snd (finishTranscript parse stringify hwm cwd fs' ident metadata))
             (complete_path cwd ident)
           = Some (stringify (JObj
               [(''metadata'', if trailing_only content then last vs else metadata),
                (''messages'', JArr (if trailing_only content then [] else vs))]))"
proof
  have "fs_read (snd (append_all (default_FileWriter cwd) fs ident [l])) (active_path cwd ident)
      = Some (unlines_lf [l])"
    using append_all_fresh [of "default_FileWriter cwd" ident fs "[l]"] assms(1)
    by (simp add: file_path_default fileStates_default)
  moreover have "\<forall>x\<in>set [l]. LF \<notin> set x \<and> \<not> is_blank x"
    using assms by simp
  moreover have "map parse [l] = map Some [a]"
    using assms by simp
  ultimately show "fs_read (snd (finishTranscript parse stringify hwm cwd
               (snd (append_all (default_FileWriter cwd) fs ident [l])) ident metadata))
             (complete_path cwd ident)
           = Some (stringify (JObj [(''metadata'', metadata), (''messages'', JArr [a])]))"
    using finish_appended [where ls = "[l]" and parse = parse and vs = "[a]"] by blast
  show "fs_read (snd (finishTranscript parse stringify hwm cwd fs' ident metadata))
             (complete_path cwd ident)
           = Some (stringify (JObj
               [(''metadata'', if trailing_only content then last vs else metadata),
                (''messages'', JArr (if trailing_only content then [] else vs))]))"
    using finish_general [where parse = parse and stringify = stringify, OF assms(5) assms(6)]
    by blast
qed

theorem finalize_single_record_witness:
  "fs_read fs_empty (active_path ''/app'' ''s2'') = None
   \<and> json_parse ''{\"note\":\"hi\"}'' = Some (JObj [(''note'', JStr ''hi'')])
   \<and> LF \<notin> set ''{\"note\":\"hi\"}''
   \<and> \<not> is_blank ''{\"note\":\"hi\"}''
   \<and> fs_read (fs_single (active_path ''/app'' ''s2'') ''{\"note\":\"hi\"}'') (active_path ''/app'' ''s2'')
       = Some ''{\"note\":\"hi\"}''
   \<and> map json_parse (filter (\<lambda>x. \<not> is_blank x) (split_nl ''{\"note\":\"hi\"}''))
       = map Some [JObj [(''note'', JStr ''hi'')]]
   \<and> trailing_only ''{\"note\":\"hi\"}''
   \<and> fs_read (fs_single (active_path ''/app'' ''s2'') two_records_open) (active_path ''/app'' ''s2'')
       = Some two_records_open
   \<and> map json_parse (filter (\<lambda>x. \<not> is_blank x) (split_nl two_records_open))
       = map Some [JObj [(''a'', JNum 1)], JObj [(''b'', JNum 2)]]
   \<and> \<not> trailing_only two_records_open
   \<and> fs_read (snd (finishTranscript json_parse json_stringify 65536 ''/app''
         (snd (append_all (default_FileWriter ''/app'') fs_empty ''s2'' [''{\"note\":\"hi\"}'']))
         ''s2'' (JObj [])))
       (complete_path ''/app'' ''s2'')
     = Some ''{\"metadata\":{},\"messages\":[{\"note\":\"hi\"}]}''
   \<and> fs_read (snd (finishTranscript json_parse json_stringify 65536 ''/app''
         (fs_single (active_path ''/app'' ''s2'') ''{\"note\":\"hi\"}'') ''s2'' (JObj [])))
       (complete_path ''/app'' ''s2'')
     = Some ''{\"metadata\":{\"note\":\"hi\"},\"messages\":[]}''
   \<and> fs_read (snd (finishTranscript json_parse json_stringify 65536 ''/app''
         (fs_single (active_path ''/app'' ''s2'') two_records_open) ''s2'' (JObj [])))
       (complete_path ''/app'' ''s2'')
     = Some ''{\"metadata\":{},\"messages\":[{\"a\":1},{\"b\":2}]}''"
proof -
  have h1: "fs_read fs_empty (active_path ''/app'' ''s2'') = None"
    by (rule fs_read_empty)
  have h2: "json_parse ''{\"note\":\"hi\"}'' = Some (JObj [(''note'', JStr ''hi'')])" by code_simp
  have h3: "LF \<notin> set ''{\"note\":\"hi\"}''" by code_simp
  have h4: "\<not> is_blank ''{\"note\":\"hi\"}''" by code_simp
  have h5: "fs_read (fs_single (active_path ''/app'' ''s2'') ''{\"note\":\"hi\"}'')
      (active_path ''/app'' ''s2'') = Some ''{\"note\":\"hi\"}''"
    by (rule fs_read_single)
  have h6: "map json_parse (filter (\<lambda>x. \<not> is_blank x) (split_nl ''{\"note\":\"hi\"}''))
      = map Some [JObj [(''note'', JStr ''hi'')]]"
    by code_simp
  have t1: "trailing_only ''{\"note\":\"hi\"}''" by code_simp
  have l: "last [JObj [(''note'', JStr ''hi'')]] = (JObj [(''note'', JStr ''hi'')] :: int json)"
    by simp
  have g5: "fs_read (fs_single (active_path ''/app'' ''s2'') two_records_open)
      (active_path ''/app'' ''s2'') = Some two_records_open"
    by (rule fs_read_single)
  have g6: "map json_parse (filter (\<lambda>x. \<not> is_blank x) (split_nl two_records_open))
      = map Some [JObj [(''a'', JNum 1)], JObj [(''b'', JNum 2)]]"
    by code_simp
  have t2: "\<not> trailing_only two_records_open" by code_simp
  have s1: "json_stringify (JObj [(''metadata'', JObj []),
        (''messages'', JArr [JObj [(''note'', JStr ''hi'')]])])
      = ''{\"metadata\":{},\"messages\":[{\"note\":\"hi\"}]}''" by code_simp
  have s2: "json_stringify (JObj [(''metadata'', JObj [(''note'', JStr ''hi'')]),
        (''messages'', JArr [])])
      = ''{\"metadata\":{\"note\":\"hi\"},\"messages\":[]}''" by code_simp
  have s3: "json_stringify (JObj [(''metadata'', JObj []),
        (''messages'', JArr [JObj [(''a'', JNum 1)], JObj [(''b'', JNum 2)]])])
      = ''{\"metadata\":{},\"messages\":[{\"a\":1},{\"b\":2}]}''" by code_simp
  have a: "fs_read (snd (finishTranscript json_parse json_stringify 65536 ''/app''
         (snd (append_all (default_FileWriter ''/app'') fs_empty ''s2'' [''{\"note\":\"hi\"}'']))
         ''s2'' (JObj [])))
       (complete_path ''/app'' ''s2'')
     = Some ''{\"metadata\":{},\"messages\":[{\"note\":\"hi\"}]}''
   \<and> fs_read (snd (finishTranscript json_parse json_stringify 65536 ''/app''
         (fs_single (active_path ''/app'' ''s2'') ''{\"note\":\"hi\"}'') ''s2'' (JObj [])))
       (complete_path ''/app'' ''s2'')
     = Some ''{\"metadata\":{\"note\":\"hi\"},\"messages\":[]}''"
    using finalize_single_record
      [where parse = json_parse and stringify = json_stringify and hwm = 65536
         and metadata = "JObj []", OF h1 h2 h3 h4 h5 h6]
    unfolding if_P [OF t1] l s1 s2 by blast
  have b: "fs_read (snd (finishTranscript json_parse json_stringify 65536 ''/app''
         (fs_single (active_path ''/app'' ''s2'') two_records_open) ''s2'' (JObj [])))
       (complete_path ''/app'' ''s2'')
     = Some ''{\"metadata\":{},\"messages\":[{\"a\":1},{\"b\":2}]}''"
    using finalize_single_record
      [where parse = json_parse and stringify = json_stringify and hwm = 65536
         and metadata = "JObj []", OF h1 h2 h3 h4 g5 g6]
    unfolding if_not_P [OF t2] s3 by blast
  from h1 h2 h3 h4 h5 h6 t1 g5 g6 t2 a b show ?thesis by blast
qed

text \<open>
  One append of \<^verbatim>\<open>{"note":"hi"}\<close> to a new id, then \<^verbatim>\<open>finishTranscript\<close> with empty
  metadata: the record is a message, and the metadata stays empty.
\<close>

theorem finalize_single_record_counterexample:
  "fs_read (snd (finishTranscript json_parse json_stringify 65536 ''/app''
         (snd (append_all (default_FileWriter ''/app'') fs_empty ''s2'' [''{\"note\":\"hi\"}'']))
         ''s2'' (JObj [])))
       (complete_path ''/app'' ''s2'')
     = Some ''{\"metadata\":{},\"messages\":[{\"note\":\"hi\"}]}''
   \<and> ''{\"metadata\":{},\"messages\":[{\"note\":\"hi\"}]}''
     \<noteq> ''{\"metadata\":{\"note\":\"hi\"},\"messages\":[]}''"
proof -
  have a: "fs_read (snd (append_all (default_FileWriter ''/app'') fs_empty ''s2'' [''{\"note\":\"hi\"}'']))
      (active_path ''/app'' ''s2'') = Some (unlines_lf [''{\"note\":\"hi\"}''])"
    using append_all_fresh [of "default_FileWriter ''/app''" "''s2''" fs_empty "[''{\"note\":\"hi\"}'']"]
    by (simp add: file_path_default fileStates_default fs_read_empty)
  have b: "\<forall>l\<in>set [''{\"note\":\"hi\"}'']. LF \<notin> set l \<and> \<not> is_blank l" by code_simp
  have c: "map json_parse [''{\"note\":\"hi\"}''] = map Some [JObj [(''note'', JStr ''hi'')]]"
    by code_simp
  have s: "json_stringify (JObj [(''metadata'', JObj []),
        (''messages'', JArr [JObj [(''note'', JStr ''hi'')]])])
      = ''{\"metadata\":{},\"messages\":[{\"note\":\"hi\"}]}''" by code_simp
  have d: "''{\"metadata\":{},\"messages\":[{\"note\":\"hi\"}]}''
     \<noteq> ''{\"metadata\":{\"note\":\"hi\"},\"messages\":[]}''" by simp
  show ?thesis
    using finish_appended
      [where parse = json_parse and stringify = json_stringify and hwm = 65536
         and metadata = "JObj []", OF a b c] d
    unfolding s by blast
qed

text \<open>
  C4: two records appended to an id that has no active file yet, then
  \<^verbatim>\<open>finishTranscript\<close> with empty metadata: the complete file holds the document with
  empty metadata and the two parsed records as messages, in the order of the appends,
  and the active file is gone. For \<^verbatim>\<open>{"a":1}\<close> and \<^verbatim>\<open>{"a":2}\<close> the document is
  \<^verbatim>\<open>{"metadata":{},"messages":[{"a":1},{"a":2}]}\<close>.
\<close>

theorem finalize_round_trip:
  assumes "fs_read fs (active_path cwd ident) = None"
      and "parse l1 = Some a1" and "parse l2 = Some a2"
      and "LF \<notin> set l1" and "LF \<notin> set l2"
      and "\<not> is_blank l1" and "\<not> is_blank l2"
  shows "fst (finishTranscript parse stringify hwm cwd
               (snd (append_all (default_FileWriter cwd) fs ident [l1, l2])) ident (JObj [])) = None
       \<and> fs_read (snd (finishTranscript parse stringify hwm cwd
               (snd (append_all (default_FileWriter cwd) fs ident [l1, l2])) ident (JObj [])))
             (complete_path cwd ident)
           = Some (stringify (JObj [(''metadata'', JObj []), (''messages'', JArr [a1, a2])]))
       \<and> fs_read (snd (finishTranscript parse stringify hwm cwd
               (snd (append_all (default_FileWriter cwd) fs ident [l1, l2])) ident (JObj [])))
             (active_path cwd ident) = None"
proof (rule finish_appended)
  show "fs_read (snd (append_all (default_FileWriter cwd) fs ident [l1, l2])) (active_path cwd ident)
      = Some (unlines_lf [l1, l2])"
    using append_all_fresh [of "default_FileWriter cwd" ident fs "[l1, l2]"] assms(1)
    by (simp add: file_path_default fileStates_default)
  show "\<forall>l\<in>set [l1, l2]. LF \<notin> set l \<and> \<not> is_blank l"
    using assms by simp
  show "map parse [l1, l2] = map Some [a1, a2]"
    using assms by simp
qed

theorem finalize_round_trip_witness:
  "fs_read fs_empty (active_path ''/app'' ''s1'') = None
   \<and> json_parse ''{\"a\":1}'' = Some (JObj [(''a'', JNum 1)])
   \<and> json_parse ''{\"a\":2}'' = Some (JObj [(''a'', JNum 2)])
   \<and> LF \<notin> set ''{\"a\":1}'' \<and> LF \<notin> set ''{\"a\":2}''
   \<and> \<not> is_blank ''{\"a\":1}'' \<and> \<not> is_blank ''{\"a\":2}''
   \<and> fst (finishTranscript json_parse json_stringify 65536 ''/app''
         (snd (append_all (default_FileWriter ''/app'') fs_empty ''s1'' [''{\"a\":1}'', ''{\"a\":2}'']))
         ''s1'' (JObj [])) = None
   \<and> fs_read (snd (finishTranscript json_parse json_stringify 65536 ''/app''
         (snd (append_all (default_FileWriter ''/app'') fs_empty ''s1'' [''{\"a\":1}'', ''{\"a\":2}'']))
         ''s1'' (JObj []))) (complete_path ''/app'' ''s1'')
       = Some ''{\"metadata\":{},\"messages\":[{\"a\":1},{\"a\":2}]}''
   \<and> fs_read (snd (finishTranscript json_parse json_stringify 65536 ''/app''
         (snd (append_all (default_FileWriter ''/app'') fs_empty ''s1'' [''{\"a\":1}'', ''{\"a\":2}'']))
         ''s1'' (JObj []))) (active_path ''/app'' ''s1'') = None"
proof -
  have h1: "fs_read fs_empty (active_path ''/app'' ''s1'') = None"
    by (rule fs_read_empty)
  have h2: "json_parse ''{\"a\":1}'' = Some (JObj [(''a'', JNum 1)])" by code_simp
  have h3: "json_parse ''{\"a\":2}'' = Some (JObj [(''a'', JNum 2)])" by code_simp
  have h4: "LF \<notin> set ''{\"a\":1}''" by code_simp
  have h5: "LF \<notin> set ''{\"a\":2}''" by code_simp
  have h6: "\<not> is_blank ''{\"a\":1}''" by code_simp
  have h7: "\<not> is_blank ''{\"a\":2}''" by code_simp
  have s: "json_stringify (JObj [(''metadata'', JObj []),
        (''messages'', JArr [JObj [(''a'', JNum 1)], JObj [(''a'', JNum 2)]])])
      = ''{\"metadata\":{},\"messages\":[{\"a\":1},{\"a\":2}]}''" by code_simp
  show ?thesis
    using finalize_round_trip
      [where parse = json_parse and stringify = json_stringify and hwm = 65536,
       OF h1 h2 h3 h4 h5 h6 h7]
      h1 h2 h3 h4 h5 h6 h7
    unfolding s by blast
qed

text \<open>
  C6: when a non-blank line of the active file (a piece between line feeds) does not
  parse, \<^verbatim>\<open>finishTranscript\<close> rejects with the SyntaxError and the file system is as it
  was: no complete file is written and the active file is still there, unchanged.
\<close>

theorem finalize_aborts_on_parse_error:
  assumes "fs_read fs (active_path cwd ident) = Some content"
      and "l \<in> set (split_nl content)"
      and "\<not> is_blank l"
      and "parse l = None"
  shows "finishTranscript parse stringify hwm cwd fs ident metadata = (Some SyntaxError, fs)"
proof -
  let ?L = "split_nl content"
  have ne: "?L \<noteq> []" by (rule split_nl_nonempty)
  then have "?L = butlast ?L @ [last ?L]" by simp
  then have mem: "l \<in> set (butlast ?L) \<or> l = last ?L"
    using assms(2) by (metis Un_iff empty_iff insert_iff list.simps(15) set_append set_empty2)
  show ?thesis
  proof (cases "parse_lines parse (butlast ?L) ([], 0)")
    case (Inl e)
    then have "e = SyntaxError" by (rule parse_lines_error)
    with Inl assms(1) show ?thesis
      by (simp add: finishTranscript_def active_path_def read_chunks_whole)
  next
    case (Inr r)
    obtain m i where r: "r = (m, i)" by (cases r)
    have "l \<notin> set (butlast ?L)"
      using Inr parse_lines_bad [of l "butlast ?L" parse "([], 0)"] assms(3,4) by auto
    with mem have "l = last ?L" by simp
    with Inr r assms show ?thesis
      by (simp add: finishTranscript_def active_path_def read_chunks_whole finish_buffer_def)
  qed
qed

theorem finalize_aborts_on_parse_error_witness:
  "fs_read (fs_single (active_path ''/app'' ''s1'') (unlines_lf [''{\"a\":1}'', ''oops'']))
       (active_path ''/app'' ''s1'')
     = Some (unlines_lf [''{\"a\":1}'', ''oops''])
   \<and> ''oops'' \<in> set (split_nl (unlines_lf [''{\"a\":1}'', ''oops'']))
   \<and> \<not> is_blank ''oops''
   \<and> json_parse ''oops'' = None
   \<and> finishTranscript json_parse json_stringify 65536 ''/app''
         (fs_single (active_path ''/app'' ''s1'') (unlines_lf [''{\"a\":1}'', ''oops'']))
         ''s1'' (JObj [])
     = (Some SyntaxError,
        fs_single (active_path ''/app'' ''s1'') (unlines_lf [''{\"a\":1}'', ''oops'']))"
proof -
  have h1: "fs_read (fs_single (active_path ''/app'' ''s1'') (unlines_lf [''{\"a\":1}'', ''oops'']))
       (active_path ''/app'' ''s1'')
     = Some (unlines_lf [''{\"a\":1}'', ''oops''])"
    by (rule fs_read_single)
  have h2: "''oops'' \<in> set (split_nl (unlines_lf [''{\"a\":1}'', ''oops'']))" by code_simp
  have h3: "\<not> is_blank ''oops''" by code_simp
  have h4: "json_parse ''oops'' = None" by code_simp
  show ?thesis
    using finalize_aborts_on_parse_error
      [where parse = json_parse and stringify = json_stringify and hwm = 65536
         and metadata = "JObj []" and l = "''oops''", OF h1 h2 h3 h4]
      h1 h2 h3 h4
    by blast
qed

end
